theory Spec2Isabelle
  imports Main "HOL-Library.Word"
begin

text \<open>
  The binary time-series reader (binaryreader.py) and the three Paraview grid writers
  (paraview.py) of mytools, as functions on bytes: a reader is a record that \<open>sort\<close>
  updates, a write is the bytes left in the file together with the exception that
  stopped it, if one did. Files are byte lists. What the struct module does to floating
  point numbers is a parameter of the functions.
\<close>

section \<open>Common ground: bytes, Python errors, Python arguments\<close>

type_synonym byte = "8 word"

text \<open>The exceptions the modelled functions can raise.\<close>

datatype error =
    AssertionError
  | AttributeError
  | FileNotFoundError
  | IndexError
  | OverflowError
  | StructError
  | TypeError
  | ValueError

text \<open>
  A dynamically typed Python argument, as far as \<open>type(v) is int\<close> can tell values
  apart. A float is carried as its IEEE-754 bit pattern; \<open>bool\<close> is a type of its own
  for \<open>type(v) is int\<close>.
\<close>

datatype pyarg =
    PyNone
  | PyInt int
  | PyBool bool
  | PyFloat "64 word"
  | PyStr string

fun type_is_int :: "pyarg \<Rightarrow> bool" where
  "type_is_int (PyInt n) = True"
| "type_is_int v = False"

fun int_of :: "pyarg \<Rightarrow> int" where
  "int_of (PyInt n) = n"
| "int_of v = 0"

section \<open>binaryreader.py: the binary time-series reader\<close>

subsection \<open>numpy arrays of one and two dimensions\<close>

text \<open>
  \<open>self.data\<close> is \<open>np.array(())\<close> at first, a one-dimensional array after the first
  row and a two-dimensional one once \<open>np.vstack\<close> has run.
\<close>

datatype 'v ndarr = Arr1 "'v list" | Arr2 "'v list list"

fun arr_size :: "'v ndarr \<Rightarrow> nat" where
  "arr_size (Arr1 xs) = length xs"
| "arr_size (Arr2 rows) = sum_list (map length rows)"

fun arr_shape :: "'v ndarr \<Rightarrow> nat list" where
  "arr_shape (Arr1 xs) = [length xs]"
| "arr_shape (Arr2 rows) = [length rows, (case rows of [] \<Rightarrow> 0 | r # _ \<Rightarrow> length r)]"

text \<open>
  \<open>np.vstack((data, newline))\<close> with \<open>newline\<close> one-dimensional: both are made
  two-dimensional and joined along the first axis; rows of different widths raise
  ValueError.
\<close>

fun vstack :: "'v ndarr \<Rightarrow> 'v list \<Rightarrow> error + 'v ndarr" where
  "vstack (Arr1 xs) newline =
     (if length xs = length newline then Inr (Arr2 [xs, newline]) else Inl ValueError)"
| "vstack (Arr2 rows) newline =
     (if list_all (\<lambda>r. length r = length newline) rows then Inr (Arr2 (rows @ [newline]))
      else Inl ValueError)"

text \<open>\<open>np.vstack((self.data, newline)) if self.data.size else newline\<close>.\<close>

definition add_row :: "'v ndarr \<Rightarrow> 'v list \<Rightarrow> error + 'v ndarr" where
  "add_row d newline = (if arr_size d \<noteq> 0 then vstack d newline else Inr (Arr1 newline))"

subsection \<open>The reader object\<close>

record 'v reader =
  nrows :: int
  ncols :: int
  data :: "'v ndarr"
  prec :: string
  fh :: "byte list option"
  customized :: bool
  fmt :: "string option"
  nbytes :: int

text \<open>
  The file handle is the part of the file not read yet; \<open>None\<close> is the handle of a
  reader built without a name. \<open>fh.read(n)\<close> returns at most \<open>n\<close> bytes, and all that
  is left when \<open>n\<close> is negative.
\<close>

definition fh_read :: "byte list \<Rightarrow> int \<Rightarrow> byte list \<times> byte list" where
  "fh_read s n = (if n < 0 then (s, []) else (take (nat n) s, drop (nat n) s))"

text \<open>\<open>BinaryReader.file\<close>: \<open>open(name, mode='rb')\<close> on a file system.\<close>

definition reader_file :: "(string \<rightharpoonup> byte list) \<Rightarrow> string \<Rightarrow> 'v reader \<Rightarrow> error + 'v reader" where
  "reader_file fs name self =
     (case fs name of
        None \<Rightarrow> Inl FileNotFoundError
      | Some content \<Rightarrow> Inr (self\<lparr>fh := Some content\<rparr>))"

text \<open>\<open>BinaryReader.__init__(name=None, prec='d')\<close>.\<close>

definition reader_init :: "(string \<rightharpoonup> byte list) \<Rightarrow> string option \<Rightarrow> string \<Rightarrow> error + 'v reader" where
  "reader_init fs name p =
     (let self = \<lparr>nrows = 0, ncols = 0, data = Arr1 [], prec = p, fh = None,
                  customized = False, fmt = None, nbytes = 0\<rparr>
      in case name of None \<Rightarrow> Inr self | Some n \<Rightarrow> reader_file fs n self)"

text \<open>
  \<open>BinaryReader.customize(fmt)\<close>. The argument is a string by its type here, so the
  assertion holds; \<open>calcsize\<close> is the one of the struct module, \<open>None\<close> where it
  raises struct.error.
\<close>

definition customize :: "(string \<Rightarrow> nat option) \<Rightarrow> string \<Rightarrow> 'v reader \<Rightarrow> error + 'v reader" where
  "customize calcsize f self =
     (case calcsize f of
        None \<Rightarrow> Inl StructError
      | Some n \<Rightarrow> Inr (self\<lparr>fmt := Some f, nbytes := int n, ncols := int (length f),
                           customized := True\<rparr>))"

text \<open>
  The row loop of \<open>BinaryReader.sort\<close>. It runs for ever on rows of zero bytes that
  are not truncated, so it is a partial function: \<open>None\<close> is the loop that does not
  return. A result is the exception raised, if any, and the reader as it is left.
  \<open>unpack\<close> is the one of the struct module, \<open>None\<close> where it raises struct.error.
\<close>

partial_function (option) sort_loop ::
  "(string \<Rightarrow> byte list \<Rightarrow> 'v list option) \<Rightarrow> bool \<Rightarrow> int \<Rightarrow> 'v reader \<Rightarrow> int
     \<Rightarrow> (error option \<times> 'v reader) option"
where
  "sort_loop unpack toTruncate trunc self count =
     (case fh self of
        None \<Rightarrow> Some (Some AttributeError, self)
      | Some s \<Rightarrow>
          (let buffer = fst (fh_read s (nbytes self));
               self1 = self\<lparr>fh := Some (snd (fh_read s (nbytes self)))\<rparr>
           in if int (length buffer) \<noteq> nbytes self then Some (None, self1\<lparr>nrows := count\<rparr>)
              else (case fmt self1 of
                      None \<Rightarrow> Some (Some TypeError, self1)
                    | Some f \<Rightarrow>
                       (case unpack f buffer of
                          None \<Rightarrow> Some (Some StructError, self1)
                        | Some newline \<Rightarrow>
                           (case add_row (data self1) newline of
                              Inl e \<Rightarrow> Some (Some e, self1)
                            | Inr d \<Rightarrow>
                               (let self2 = self1\<lparr>data := d\<rparr>
                                in if toTruncate \<and> count + 1 \<ge> trunc
                                   then Some (None, self2\<lparr>nrows := count + 1\<rparr>)
                                   else sort_loop unpack toTruncate trunc self2 (count + 1)))))))"

text \<open>
  \<open>BinaryReader.sort(ncols=None, trunc=None)\<close>. The string \<open>ncols*self.prec\<close> is
  empty for a negative count.
\<close>

definition reader_sort ::
  "(string \<Rightarrow> nat option) \<Rightarrow> (string \<Rightarrow> byte list \<Rightarrow> 'v list option) \<Rightarrow> pyarg \<Rightarrow> pyarg
     \<Rightarrow> 'v reader \<Rightarrow> (error option \<times> 'v reader) option"
where
  "reader_sort calcsize unpack ncols_arg trunc self =
     (if \<not> customized self then
        (if \<not> type_is_int ncols_arg then Some (Some AssertionError, self)
         else (case calcsize (prec self) of
                 None \<Rightarrow> Some (Some StructError, self)
               | Some w \<Rightarrow>
                   sort_loop unpack (type_is_int trunc) (int_of trunc)
                     (self\<lparr>nbytes := int w * int_of ncols_arg,
                           ncols := int_of ncols_arg,
                           fmt := Some (concat (replicate (nat (int_of ncols_arg)) (prec self)))\<rparr>)
                     0))
      else sort_loop unpack (type_is_int trunc) (int_of trunc) self 0)"

text \<open>\<open>BinaryReader.shape\<close>.\<close>

definition reader_shape :: "'v reader \<Rightarrow> int \<times> int" where
  "reader_shape self = (nrows self, ncols self)"

subsection \<open>What a read is expected to give\<close>

text \<open>The complete rows of \<open>w\<close> bytes that a stream holds, in file order.\<close>

definition complete_rows :: "nat \<Rightarrow> byte list \<Rightarrow> byte list list" where
  "complete_rows w s = map (\<lambda>i. take w (drop (i * w) s)) [0..<length s div w]"

text \<open>
  The array that \<open>add_row\<close> builds from rows of \<open>c\<close> values each, added one by one
  to \<open>np.array(())\<close>.
\<close>

definition table_of :: "nat \<Rightarrow> 'v list list \<Rightarrow> 'v ndarr" where
  "table_of c rows =
     (if c = 0 then Arr1 []
      else case rows of [] \<Rightarrow> Arr1 [] | [r] \<Rightarrow> Arr1 r | _ \<Rightarrow> Arr2 rows)"

text \<open>
  The number of rows the loop reads from \<open>n\<close> complete rows: the truncation test
  comes after a row has been read and counted.
\<close>

definition rows_read :: "bool \<Rightarrow> int \<Rightarrow> nat \<Rightarrow> nat" where
  "rows_read toTruncate trunc n = (if toTruncate then min n (nat (max 1 trunc)) else n)"

text \<open>
  The struct module on the formats that are made of the character \<open>d\<close> alone: eight
  bytes for each double and no padding. A double is carried as its eight bytes. These
  two instances serve to run the reader on concrete files.
\<close>

definition calcsize_d :: "string \<Rightarrow> nat option" where
  "calcsize_d f = (if list_all (\<lambda>ch. ch = CHR ''d'') f then Some (8 * length f) else None)"

definition unpack_d :: "string \<Rightarrow> byte list \<Rightarrow> byte list list option" where
  "unpack_d f b =
     (if list_all (\<lambda>ch. ch = CHR ''d'') f \<and> length b = 8 * length f
      then Some (map (\<lambda>i. take 8 (drop (8 * i) b)) [0..<length f]) else None)"


section \<open>paraview.py: the grid writers\<close>

subsection \<open>Writing to the file\<close>

text \<open>
  What a run leaves in the output file, and the exception that ended it, if any. The
  bytes written before an exception stay in the file.
\<close>

type_synonym wr = "byte list \<times> error option"

definition fh_write :: "byte list \<Rightarrow> wr" where
  "fh_write bs = (bs, None)"

definition raise_error :: "error \<Rightarrow> wr" where
  "raise_error e = ([], Some e)"

fun then_wr :: "wr \<Rightarrow> wr \<Rightarrow> wr" where
  "then_wr (b1, None) (b2, e) = (b1 @ b2, e)"
| "then_wr (b1, Some e) w = (b1, Some e)"

primrec seqs :: "wr list \<Rightarrow> wr" where
  "seqs [] = ([], None)"
| "seqs (w # ws) = then_wr w (seqs ws)"

text \<open>\<open>fh.write(pack(...))\<close>: nothing is written when \<open>pack\<close> raises.\<close>

fun write_pack :: "error + byte list \<Rightarrow> wr" where
  "write_pack (Inl e) = raise_error e"
| "write_pack (Inr bs) = fh_write bs"

text \<open>\<open>encode\<close>: the bytes of a string (a HOL string is a byte string already).\<close>

definition encode :: "string \<Rightarrow> byte list" where
  "encode s = map of_char s"

text \<open>How \<open>format\<close> and f-strings print integers.\<close>

fun str_nat :: "nat \<Rightarrow> string" where
  "str_nat n =
     (if n < 10 then [''0123456789'' ! n]
      else str_nat (n div 10) @ [''0123456789'' ! (n mod 10)])"

declare str_nat.simps [simp del]

definition str_int :: "int \<Rightarrow> string" where
  "str_int v = (if v < 0 then CHR ''-'' # str_nat (nat (- v)) else str_nat (nat v))"

subsection \<open>struct.pack\<close>

text \<open>The four bytes of a 32-bit value, lowest first (the native order of the header's
  \<open>byte_order="LittleEndian"\<close>).\<close>

definition le32 :: "32 word \<Rightarrow> byte list" where
  "le32 w = [ucast w, ucast (drop_bit 8 w), ucast (drop_bit 16 w), ucast (drop_bit 24 w)]"

text \<open>\<open>pack("i", v)\<close>: struct.error outside the range of a 32-bit signed integer.\<close>

definition pack_i :: "int \<Rightarrow> error + byte list" where
  "pack_i v =
     (if - (2 ^ 31) \<le> v \<and> v < 2 ^ 31 then Inr (le32 (word_of_int v)) else Inl StructError)"

text \<open>
  \<open>pack("f"*n, *values)\<close> with \<open>n\<close> the number of values. The conversion of one value
  to single precision is the parameter \<open>f32\<close>: the bit pattern, or \<open>None\<close> where
  \<open>pack\<close> raises OverflowError (a value too large for single precision). One failing
  value fails the whole call.
\<close>

definition pack_f :: "('a \<Rightarrow> 32 word option) \<Rightarrow> 'a list \<Rightarrow> error + byte list" where
  "pack_f f32 vals =
     (case those (map f32 vals) of
        None \<Rightarrow> Inl OverflowError
      | Some ws \<Rightarrow> Inr (concat (map le32 ws)))"

subsection \<open>numpy arrays\<close>

text \<open>An array of any number of axes: its shape and its items by index.\<close>

record 'a ndarray =
  shape :: "nat list"
  item :: "nat list \<Rightarrow> 'a"

text \<open>\<open>value.size\<close>.\<close>

definition nd_size :: "'a ndarray \<Rightarrow> nat" where
  "nd_size a = prod_list (shape a)"

text \<open>
  The indices of an array of a given shape in column-major order: the first index
  varies fastest.
\<close>

fun f_indices :: "nat list \<Rightarrow> nat list list" where
  "f_indices [] = [[]]"
| "f_indices (d # ds) = concat (map (\<lambda>rest. map (\<lambda>i. i # rest) [0..<d]) (f_indices ds))"

text \<open>\<open>value.flatten(order='F')\<close>.\<close>

definition flatten_F :: "'a ndarray \<Rightarrow> 'a list" where
  "flatten_F a = map (item a) (f_indices (shape a))"

text \<open>Arrays of two and of three axes, as the docstrings type \<open>xyz\<close>, \<open>cells\<close> and the
  coordinates of a structured grid.\<close>

record 'a array2 =
  shape2 :: "nat \<times> nat"
  item2 :: "nat \<Rightarrow> nat \<Rightarrow> 'a"

record 'a array3 =
  shape3 :: "nat \<times> nat \<times> nat"
  item3 :: "nat \<Rightarrow> nat \<Rightarrow> nat \<Rightarrow> 'a"

text \<open>\<open>a[i,j]\<close> and \<open>a[i,j,k]\<close> for indices that are not negative.\<close>

definition index2 :: "'a array2 \<Rightarrow> nat \<Rightarrow> nat \<Rightarrow> error + 'a" where
  "index2 a i j =
     (case shape2 a of (n, m) \<Rightarrow> if i < n \<and> j < m then Inr (item2 a i j) else Inl IndexError)"

definition index3 :: "'a array3 \<Rightarrow> nat \<Rightarrow> nat \<Rightarrow> nat \<Rightarrow> error + 'a" where
  "index3 a i j k =
     (case shape3 a of (n, m, l) \<Rightarrow>
        if i < n \<and> j < m \<and> k < l then Inr (item3 a i j k) else Inl IndexError)"

subsection \<open>The header lines and blocks the three writers share\<close>

definition dataarray_line :: "string \<Rightarrow> string \<Rightarrow> string \<Rightarrow> string \<Rightarrow> string" where
  \<open>dataarray_line ty name off ndim =
     ''<DataArray type="'' @ ty @ ''" Name="'' @ name @ ''" format="appended" offset="'' @ off
       @ ''" NumberOfComponents="'' @ ndim @ ''"/>\<newline>''\<close>

definition extent :: "nat \<Rightarrow> nat \<Rightarrow> nat \<Rightarrow> string" where
  \<open>extent nx ny nz =
     ''"1 '' @ str_nat nx @ '' 1 '' @ str_nat ny @ '' 1 '' @ str_nat nz @ ''">\<newline>''\<close>

text \<open>
  The loop over \<open>kwargs.items()\<close> that declares the fields (lines 56-60, 115-119 and
  194-198): \<open>value.shape[0]\<close> raises IndexError on an array without axes. The
  counter \<open>off\<close> is a Python integer in vtr and vts and a numpy int64 in vtu (from
  line 184 on), where its additions wrap around: \<open>norm\<close> is what an addition does to
  its result.
\<close>

definition wrap64 :: "int \<Rightarrow> int" where
  "wrap64 v = sint (word_of_int v :: 64 word)"

fun field_decls :: "(int \<Rightarrow> int) \<Rightarrow> int \<Rightarrow> (string \<times> 'a ndarray) list \<Rightarrow> wr" where
  "field_decls norm off [] = fh_write []"
| "field_decls norm off ((key, val) # kvs) =
     (case shape val of
        [] \<Rightarrow> raise_error IndexError
      | ndim # _ \<Rightarrow>
          then_wr (fh_write (encode (dataarray_line ''Float32'' key (str_int off) (str_nat ndim))))
            (field_decls norm (norm (off + (int (nd_size val) * 4 + 4))) kvs))"

text \<open>One length-prefixed block of single-precision values.\<close>

definition float_block :: "('a \<Rightarrow> 32 word option) \<Rightarrow> 'a list \<Rightarrow> wr" where
  "float_block f32 vals =
     then_wr (write_pack (pack_i (4 * int (length vals)))) (write_pack (pack_f f32 vals))"

text \<open>The loop over \<open>kwargs.values()\<close> that writes the fields (lines 76-78, 136-138
  and 230-232).\<close>

definition field_blocks :: "('a \<Rightarrow> 32 word option) \<Rightarrow> (string \<times> 'a ndarray) list \<Rightarrow> wr" where
  "field_blocks f32 kwargs =
     seqs (map (\<lambda>val. then_wr (write_pack (pack_i (4 * int (nd_size val))))
                         (write_pack (pack_f f32 (flatten_F val))))
               (map snd kwargs))"

definition point_data :: "(int \<Rightarrow> int) \<Rightarrow> int \<Rightarrow> (string \<times> 'a ndarray) list \<Rightarrow> wr" where
  \<open>point_data norm off kwargs =
     (if length kwargs > 0
      then seqs [fh_write (encode ''<PointData>\<newline>''), field_decls norm off kwargs,
                 fh_write (encode ''</PointData>\<newline>'')]
      else fh_write [])\<close>

definition trailer :: wr where
  \<open>trailer = seqs [fh_write (encode ''\<newline>''), fh_write (encode ''</AppendedData>\<newline>''),
                   fh_write (encode ''</VTKFile>\<newline>'')]\<close>

subsection \<open>vtr: the rectilinear grid\<close>

text \<open>
  The axes \<open>x\<close>, \<open>y\<close> and \<open>z\<close> are one-dimensional arrays, as the docstring
  types them, and \<open>kwargs\<close> is the dictionary of the fields in its order of
  insertion. The header is lines 41-65, the appended data lines 66-82.
\<close>

definition vtr_header :: "nat \<Rightarrow> nat \<Rightarrow> nat \<Rightarrow> (string \<times> 'a ndarray) list \<Rightarrow> wr" where
  \<open>vtr_header nx ny nz kwargs =
     (let off0 = 0;
          off1 = off0 + (int nx * 4 + 4);
          off2 = off1 + (int ny * 4 + 4);
          off3 = off2 + (int nz * 4 + 4)
      in seqs
        [fh_write (encode ''<VTKFile type="RectilinearGrid" version="0.1" byte_order="LittleEndian">\<newline>''),
         fh_write (encode (''<RectilinearGrid WholeExtent='' @ extent nx ny nz)),
         fh_write (encode (''<Piece Extent='' @ extent nx ny nz)),
         fh_write (encode ''<Coordinates>\<newline>''),
         fh_write (encode (dataarray_line ''Float32'' ''x'' (str_int off0) ''1'')),
         fh_write (encode (dataarray_line ''Float32'' ''y'' (str_int off1) ''1'')),
         fh_write (encode (dataarray_line ''Float32'' ''z'' (str_int off2) ''1'')),
         fh_write (encode ''</Coordinates>\<newline>''),
         point_data (\<lambda>v. v) off3 kwargs,
         fh_write (encode ''</Piece>\<newline>''),
         fh_write (encode ''</RectilinearGrid>\<newline>''),
         fh_write (encode ''<AppendedData encoding="raw">\<newline>'')])\<close>

definition vtr ::
  "('a \<Rightarrow> 32 word option) \<Rightarrow> 'a list \<Rightarrow> 'a list \<Rightarrow> 'a list \<Rightarrow> (string \<times> 'a ndarray) list \<Rightarrow> wr"
where
  \<open>vtr f32 x y z kwargs =
     seqs
       [vtr_header (length x) (length y) (length z) kwargs,
        fh_write (encode ''_''),
        float_block f32 x,
        float_block f32 y,
        float_block f32 z,
        (if length kwargs > 0 then field_blocks f32 kwargs else fh_write []),
        trailer]\<close>

subsection \<open>vts: the structured grid\<close>

text \<open>The header is lines 104-124; the sizes are those of \<open>x\<close>.\<close>

definition vts_header :: "nat \<Rightarrow> nat \<Rightarrow> nat \<Rightarrow> (string \<times> 'a ndarray) list \<Rightarrow> wr" where
  \<open>vts_header nx ny nz kwargs =
     seqs
       [fh_write (encode ''<VTKFile type="StructuredGrid" version="0.1" byte_order="LittleEndian">\<newline>''),
        fh_write (encode (''<StructuredGrid WholeExtent='' @ extent nx ny nz)),
        fh_write (encode (''<Piece Extent='' @ extent nx ny nz)),
        fh_write (encode ''<Points>\<newline>''),
        fh_write (encode (dataarray_line ''Float32'' ''Points'' ''0'' ''3'')),
        fh_write (encode ''</Points>\<newline>''),
        point_data (\<lambda>v. v) (int nx * int ny * int nz * 3 * 4 + 4) kwargs,
        fh_write (encode ''</Piece>\<newline>''),
        fh_write (encode ''</StructuredGrid>\<newline>''),
        fh_write (encode ''<AppendedData encoding="raw">\<newline>'')]\<close>

text \<open>\<open>fh.write(pack("f", a[i,j,k]))\<close>: the index is evaluated first.\<close>

fun write_item :: "('a \<Rightarrow> 32 word option) \<Rightarrow> error + 'a \<Rightarrow> wr" where
  "write_item f32 (Inl e) = raise_error e"
| "write_item f32 (Inr v) = write_pack (pack_f f32 [v])"

text \<open>The three writes of one point: the body of the innermost loop (lines 130-132).\<close>

definition point_writes ::
  "('a \<Rightarrow> 32 word option) \<Rightarrow> 'a array3 \<Rightarrow> 'a array3 \<Rightarrow> 'a array3 \<Rightarrow> nat \<Rightarrow> nat \<Rightarrow> nat \<Rightarrow> wr"
where
  "point_writes f32 x y z i j k =
     seqs [write_item f32 (index3 x i j k), write_item f32 (index3 y i j k),
           write_item f32 (index3 z i j k)]"

text \<open>The Points block (lines 126-132): \<open>k\<close> is the outer loop, \<open>i\<close> the inner one.\<close>

definition vts_points ::
  "('a \<Rightarrow> 32 word option) \<Rightarrow> nat \<Rightarrow> nat \<Rightarrow> nat \<Rightarrow> 'a array3 \<Rightarrow> 'a array3 \<Rightarrow> 'a array3 \<Rightarrow> wr"
where
  "vts_points f32 nx ny nz x y z =
     then_wr (write_pack (pack_i (4 * int nx * int ny * int nz * 3)))
       (seqs (map (\<lambda>k.
          seqs (map (\<lambda>j.
            seqs (map (\<lambda>i. point_writes f32 x y z i j k) [0..<nx]))
            [0..<ny]))
          [0..<nz]))"

definition vts ::
  "('a \<Rightarrow> 32 word option) \<Rightarrow> 'a array3 \<Rightarrow> 'a array3 \<Rightarrow> 'a array3 \<Rightarrow> (string \<times> 'a ndarray) list \<Rightarrow> wr"
where
  \<open>vts f32 x y z kwargs =
     (case shape3 x of (nx, ny, nz) \<Rightarrow>
        seqs
          [vts_header nx ny nz kwargs,
           fh_write (encode ''_''),
           vts_points f32 nx ny nz x y z,
           (if length kwargs > 0 then field_blocks f32 kwargs else fh_write []),
           trailer])\<close>

subsection \<open>vtu: the unstructured grid\<close>

text \<open>
  \<open>cells\<close> and \<open>cellTypes\<close> are numpy arrays of the default integer type (int64):
  \<open>np.sum\<close> and \<open>np.cumsum\<close> add in 64 bits and wrap around, and so does arithmetic
  on their results. \<open>cells[:,0]\<close> raises IndexError on an array without columns.
\<close>

definition column0 :: "'b array2 \<Rightarrow> error + 'b list" where
  "column0 cells =
     (case shape2 cells of (n, m) \<Rightarrow>
        if m = 0 then Inl IndexError else Inr (map (\<lambda>i. item2 cells i 0) [0..<n]))"

definition np_sum :: "64 word list \<Rightarrow> 64 word" where
  "np_sum ws = sum_list ws"

fun cumsum_from :: "64 word \<Rightarrow> 64 word list \<Rightarrow> 64 word list" where
  "cumsum_from acc [] = []"
| "cumsum_from acc (w # ws) = (acc + w) # cumsum_from (acc + w) ws"

definition np_cumsum :: "64 word list \<Rightarrow> 64 word list" where
  "np_cumsum ws = cumsum_from 0 ws"

text \<open>
  The header up to the first use of \<open>cells[:,0]\<close> (lines 175-183), and the rest of it
  (lines 184-203). The counter turns into an int64 at line 184; a Python integer added
  to an int64 is taken modulo \<open>2^64\<close> here.
\<close>

definition vtu_header_start :: "nat \<Rightarrow> nat \<Rightarrow> wr" where
  \<open>vtu_header_start nPoints nCells =
     seqs
       [fh_write (encode ''<VTKFile type="UnstructuredGrid" version="0.1" byte_order="LittleEndian">\<newline>''),
        fh_write (encode ''<UnstructuredGrid>\<newline>''),
        fh_write (encode (''<Piece NumberOfPoints="'' @ str_nat nPoints @ ''" NumberOfCells="''
                            @ str_nat nCells @ ''">\<newline>'')),
        fh_write (encode ''<Points>\<newline>''),
        fh_write (encode (dataarray_line ''Float32'' ''Points'' ''0'' ''3'')),
        fh_write (encode ''</Points>\<newline>''),
        fh_write (encode ''<Cells>\<newline>''),
        fh_write (encode (dataarray_line ''Int32'' ''connectivity''
                            (str_int (0 + (int nPoints * 3 * 4 + 4))) ''1''))]\<close>

definition vtu_header_rest ::
  "nat \<Rightarrow> nat \<Rightarrow> 64 word list \<Rightarrow> (string \<times> 'a ndarray) list \<Rightarrow> wr"
where
  \<open>vtu_header_rest nPoints nCells col0 kwargs =
     (let off1 = 0 + (int nPoints * 3 * 4 + 4);
          off2 = wrap64 (off1 + sint (np_sum col0 * 4 + 4));
          off3 = wrap64 (off2 + (int nCells * 4 + 4));
          off4 = wrap64 (off3 + (int nCells * 4 + 4))
      in seqs
        [fh_write (encode (dataarray_line ''Int32'' ''offsets'' (str_int off2) ''1'')),
         fh_write (encode (dataarray_line ''Int32'' ''types'' (str_int off3) ''1'')),
         fh_write (encode ''</Cells>\<newline>''),
         point_data wrap64 off4 kwargs,
         fh_write (encode ''</Piece>\<newline>''),
         fh_write (encode ''</UnstructuredGrid>\<newline>''),
         fh_write (encode ''<AppendedData encoding="raw">\<newline>'')])\<close>

text \<open>The points (lines 207-209): \<open>pack("f"*3, *xyz[i,:])\<close> wants three values.\<close>

definition vtu_points :: "('a \<Rightarrow> 32 word option) \<Rightarrow> 'a array2 \<Rightarrow> wr" where
  "vtu_points f32 xyz =
     (case shape2 xyz of (nPoints, m) \<Rightarrow>
        then_wr (write_pack (pack_i (4 * int nPoints * 3)))
          (seqs (map (\<lambda>i. write_pack (if m = 3 then pack_f f32 (map (item2 xyz i) [0..<m])
                                        else Inl StructError))
                     [0..<nPoints])))"

text \<open>The writes of one cell: the body of the loop over the cells (lines 214-215).
  \<open>range\<close> of a negative count is empty.\<close>

definition cell_writes :: "64 word array2 \<Rightarrow> nat \<Rightarrow> wr" where
  "cell_writes cells i =
     (case index2 cells i 0 of
        Inl e \<Rightarrow> raise_error e
      | Inr c \<Rightarrow>
          seqs (map (\<lambda>j. (case index2 cells i (j + 1) of
                            Inl e \<Rightarrow> raise_error e
                          | Inr v \<Rightarrow> write_pack (pack_i (sint v))))
                    [0..<nat (sint c)]))"

text \<open>The connectivity (lines 212-215).\<close>

definition vtu_connectivity :: "64 word array2 \<Rightarrow> 64 word list \<Rightarrow> wr" where
  "vtu_connectivity cells col0 =
     then_wr (write_pack (pack_i (sint (4 * np_sum col0))))
       (seqs (map (cell_writes cells) [0..<fst (shape2 cells)]))"

text \<open>The offsets (lines 218-221). \<open>offsets\<close> has one entry for each cell, so
  \<open>offsets[i]\<close> is in range.\<close>

definition vtu_offsets :: "nat \<Rightarrow> 64 word list \<Rightarrow> wr" where
  "vtu_offsets nCells col0 =
     then_wr (write_pack (pack_i (4 * int nCells)))
       (let offsets = np_cumsum col0
        in seqs (map (\<lambda>i. write_pack (pack_i (sint (offsets ! i)))) [0..<nCells]))"

text \<open>The types (lines 224-226).\<close>

definition vtu_types :: "nat \<Rightarrow> 64 word list \<Rightarrow> wr" where
  "vtu_types nCells cellTypes =
     then_wr (write_pack (pack_i (4 * int nCells)))
       (seqs (map (\<lambda>i. if i < length cellTypes then write_pack (pack_i (sint (cellTypes ! i)))
                       else raise_error IndexError)
                  [0..<nCells]))"

text \<open>The parts of an unstructured grid file after the first lines of its header
  (lines 184-236), \<open>col0\<close> being \<open>cells[:,0]\<close>.\<close>

definition vtu_parts ::
  "('a \<Rightarrow> 32 word option) \<Rightarrow> 'a array2 \<Rightarrow> 64 word array2 \<Rightarrow> 64 word list \<Rightarrow> 64 word list
     \<Rightarrow> (string \<times> 'a ndarray) list \<Rightarrow> wr list"
where
  "vtu_parts f32 xyz cells cellTypes col0 kwargs =
     [vtu_header_rest (fst (shape2 xyz)) (fst (shape2 cells)) col0 kwargs,
      fh_write (encode ''_''),
      vtu_points f32 xyz,
      vtu_connectivity cells col0,
      vtu_offsets (fst (shape2 cells)) col0,
      vtu_types (fst (shape2 cells)) cellTypes,
      (if length kwargs > 0 then field_blocks f32 kwargs else fh_write []),
      trailer]"

definition vtu ::
  "('a \<Rightarrow> 32 word option) \<Rightarrow> 'a array2 \<Rightarrow> 64 word array2 \<Rightarrow> 64 word list
     \<Rightarrow> (string \<times> 'a ndarray) list \<Rightarrow> wr"
where
  "vtu f32 xyz cells cellTypes kwargs =
     then_wr (vtu_header_start (fst (shape2 xyz)) (fst (shape2 cells)))
       (case column0 cells of
          Inl e \<Rightarrow> raise_error e
        | Inr col0 \<Rightarrow> seqs (vtu_parts f32 xyz cells cellTypes col0 kwargs))"

subsection \<open>What a rectilinear grid file is expected to hold\<close>

text \<open>
  What the header of a rectilinear grid file is expected to be, given the name, the
  offset and the number of components that it declares for each array: the three
  coordinate arrays first, then the fields.
\<close>

definition decl_text :: "string \<times> int \<times> nat \<Rightarrow> string" where
  "decl_text d =
     (case d of (name, off, ncomp) \<Rightarrow>
        dataarray_line ''Float32'' name (str_int off) (str_nat ncomp))"

definition vtr_header_text :: "nat \<Rightarrow> nat \<Rightarrow> nat \<Rightarrow> (string \<times> int \<times> nat) list \<Rightarrow> string" where
  \<open>vtr_header_text nx ny nz decls =
     ''<VTKFile type="RectilinearGrid" version="0.1" byte_order="LittleEndian">\<newline>''
     @ ''<RectilinearGrid WholeExtent='' @ extent nx ny nz
     @ ''<Piece Extent='' @ extent nx ny nz
     @ ''<Coordinates>\<newline>''
     @ concat (map decl_text (take 3 decls))
     @ ''</Coordinates>\<newline>''
     @ (if 3 < length decls
        then ''<PointData>\<newline>'' @ concat (map decl_text (drop 3 decls)) @ ''</PointData>\<newline>''
        else [])
     @ ''</Piece>\<newline>''
     @ ''</RectilinearGrid>\<newline>''
     @ ''<AppendedData encoding="raw">\<newline>''\<close>

text \<open>The arrays of a rectilinear grid file in the order of their blocks, with their
  names and numbers of components.\<close>

definition vtr_arrays :: "'a list \<Rightarrow> 'a list \<Rightarrow> 'a list \<Rightarrow> (string \<times> 'a ndarray) list \<Rightarrow> 'a list list" where
  "vtr_arrays x y z kwargs = x # y # z # map (\<lambda>kv. flatten_F (snd kv)) kwargs"

definition vtr_names :: "(string \<times> 'a ndarray) list \<Rightarrow> string list" where
  "vtr_names kwargs = ''x'' # ''y'' # ''z'' # map fst kwargs"

definition vtr_ncomps :: "(string \<times> 'a ndarray) list \<Rightarrow> nat list" where
  "vtr_ncomps kwargs = 1 # 1 # 1 # map (\<lambda>kv. hd (shape (snd kv))) kwargs"

text \<open>The byte position of each block, counted from the start of the appended data
  (the byte after the \<open>_\<close>).\<close>

definition block_positions :: "byte list list \<Rightarrow> int list" where
  "block_positions blocks = map (\<lambda>i. int (length (concat (take i blocks)))) [0..<length blocks]"

text \<open>The running counter: an array of \<open>n\<close> values adds \<open>4*n + 4\<close> bytes to the offset
  of the next one.\<close>

fun running_offsets :: "int \<Rightarrow> nat list \<Rightarrow> int list" where
  "running_offsets off [] = []"
| "running_offsets off (n # ns) = off # running_offsets (off + (int n * 4 + 4)) ns"

subsection \<open>Component-major order\<close>

text \<open>
  The layout in which each component of a field is flattened by itself and the
  components follow one another: component \<open>c\<close> of an array is the array without
  its leading axis, at index \<open>c\<close> of that axis.
\<close>

definition component :: "nat \<Rightarrow> 'a ndarray \<Rightarrow> 'a ndarray" where
  "component c a = \<lparr>shape = tl (shape a), item = (\<lambda>ix. item a (c # ix))\<rparr>"

definition component_major :: "'a ndarray \<Rightarrow> 'a list" where
  "component_major a = concat (map (\<lambda>c. flatten_F (component c a)) [0..<hd (shape a)])"

text \<open>A field of two components on two points, \<open>v[c,p] = 10*c + p\<close>, its values
  carried as bit patterns.\<close>

definition example_field :: "32 word ndarray" where
  "example_field = \<lparr>shape = [2, 2], item = (\<lambda>ix. word_of_nat (10 * ix ! 0 + ix ! 1))\<rparr>"

subsection \<open>Fields and grids\<close>



subsection \<open>The points of a structured grid\<close>

text \<open>The twelve bytes of the point \<open>(i, j, k)\<close>: its three coordinates in single
  precision.\<close>

definition point_bytes ::
  "('a \<Rightarrow> 32 word option) \<Rightarrow> 'a array3 \<Rightarrow> 'a array3 \<Rightarrow> 'a array3 \<Rightarrow> nat \<Rightarrow> nat \<Rightarrow> nat \<Rightarrow> byte list"
where
  "point_bytes f32 x y z i j k =
     le32 (the (f32 (item3 x i j k))) @ le32 (the (f32 (item3 y i j k)))
       @ le32 (the (f32 (item3 z i j k)))"

text \<open>The coordinate array of a grid of \<open>2 x 2 x 2\<close> points whose value at
  \<open>(i, j, k)\<close> shows the index: \<open>100*k + 10*j + i\<close>.\<close>

definition example_grid :: "32 word array3" where
  "example_grid = \<lparr>shape3 = (2, 2, 2), item3 = (\<lambda>i j k. word_of_nat (100 * k + 10 * j + i))\<rparr>"

subsection \<open>The cells of an unstructured grid\<close>

text \<open>The vertex counts of the cells: column 0 of \<open>cells\<close>, each int64 read as the
  integer it stands for.\<close>

definition cell_sizes :: "64 word array2 \<Rightarrow> int list" where
  "cell_sizes cells = map (\<lambda>i. sint (item2 cells i 0)) [0..<fst (shape2 cells)]"

text \<open>The inclusive prefix sums \<open>s_0 + ... + s_i\<close> of a list of integers.\<close>

definition prefix_sums :: "int list \<Rightarrow> int list" where
  "prefix_sums xs = map (\<lambda>i. sum_list (take (Suc i) xs)) [0..<length xs]"

text \<open>The range of a signed 32-bit integer, which \<open>pack("i", v)\<close> accepts.\<close>

definition in_int32 :: "int \<Rightarrow> bool" where
  "in_int32 v \<longleftrightarrow> - (2 ^ 31) \<le> v \<and> v < 2 ^ 31"

text \<open>Three cells of 8, 8 and 6 vertices in an array of nine columns (every vertex
  index is 7, the padding too), and twelve points.\<close>

definition example_cells :: "64 word array2" where
  "example_cells = \<lparr>shape2 = (3, 9), item2 = (\<lambda>i j. if j = 0 then [8, 8, 6] ! i else 7)\<rparr>"

definition example_xyz :: "32 word array2" where
  "example_xyz = \<lparr>shape2 = (12, 3), item2 = (\<lambda>i j. word_of_nat (10 * i + j))\<rparr>"

section \<open>Results on the reader\<close>

subsection \<open>The row loop\<close>

lemma add_row_table_of:
  assumes "\<forall>r\<in>set done. length r = c" "length row = c"
  shows "add_row (table_of c done) row = Inr (table_of c (done @ [row]))"
proof (cases "c = 0")
  case True
  with assms show ?thesis by (simp add: add_row_def table_of_def)
next
  case False
  show ?thesis
  proof (cases "done")
    case Nil
    with False assms show ?thesis by (simp add: add_row_def table_of_def)
  next
    case (Cons a as)
    show ?thesis
    proof (cases as)
      case Nil
      with Cons False assms show ?thesis by (simp add: add_row_def table_of_def)
    next
      case (Cons b bs)
      with \<open>done = a # as\<close> False assms show ?thesis
        by (auto simp: add_row_def table_of_def list_all_iff split: list.splits)
    qed
  qed
qed

lemma complete_rows_short: "length s < w \<Longrightarrow> complete_rows w s = []"
  by (simp add: complete_rows_def)

lemma complete_rows_step:
  assumes "0 < w" "w \<le> length s"
  shows "complete_rows w s = take w s # complete_rows w (drop w s)"
proof -
  have d: "length s div w = Suc ((length s - w) div w)"
    using assms by (simp add: le_div_geq)
  have "map (\<lambda>i. take w (drop (i * w) s)) [0..<Suc ((length s - w) div w)]
        = take w s # map (\<lambda>i. take w (drop (i * w) (drop w s))) [0..<(length s - w) div w]"
  proof -
    have u: "[0..<Suc m] = 0 # map Suc [0..<m]" for m
      by (simp add: upt_conv_Cons map_Suc_upt del: upt_Suc)
    show ?thesis
      unfolding u by (simp add: comp_def add.commute)
  qed
  then show ?thesis by (simp add: complete_rows_def d)
qed

lemma length_complete_rows: "length (complete_rows w s) = length s div w"
  by (simp add: complete_rows_def)

lemma sort_loop_run:
  assumes w: "0 < w"
    and up: "\<forall>b. length b = w \<longrightarrow> (\<exists>row. unpack f b = Some row \<and> length row = c)"
  shows "nbytes r = int w \<Longrightarrow> fmt r = Some f \<Longrightarrow> fh r = Some s \<Longrightarrow>
         data r = table_of c done \<Longrightarrow> \<forall>x\<in>set done. length x = c \<Longrightarrow> length s div w = n \<Longrightarrow>
         sort_loop unpack tt t r count =
           Some (None, r\<lparr>fh := Some (if tt \<and> nat (max 1 (t - count)) \<le> n
                                      then drop (nat (max 1 (t - count)) * w) s else []),
                          data := table_of c (done @ map (\<lambda>b. the (unpack f b))
                                     (take (rows_read tt (t - count) n) (complete_rows w s))),
                          nrows := count + int (rows_read tt (t - count) n)\<rparr>)"
proof (induction n arbitrary: r s "done" count)
  case 0
  then have short: "length s < w" using w
    by (metis div_greater_zero_iff linorder_not_less less_numeral_extra(3))
  have rd: "fh_read s (int w) = (s, [])"
    using short by (simp add: fh_read_def)
  have k: "rows_read tt (t - count) 0 = 0" by (simp add: rows_read_def)
  have nl: "\<not> nat (max 1 (t - count)) \<le> 0" by simp
  show ?case
    apply (subst sort_loop.simps)
    using 0 short rd by (simp add: complete_rows_short k Let_def)
next
  case (Suc n)
  then have long: "w \<le> length s" using w
    by (metis div_greater_zero_iff zero_less_Suc)
  have rd: "fh_read s (int w) = (take w s, drop w s)"
    by (simp add: fh_read_def)
  from up long obtain row where row: "unpack f (take w s) = Some row" "length row = c"
    by (metis length_take min.absorb2)
  have ar: "add_row (table_of c done) row = Inr (table_of c (done @ [row]))"
    using add_row_table_of Suc.prems(5) row(2) by blast
  have n': "length (drop w s) div w = n"
    using Suc.prems(6) long w by (simp add: le_div_geq)
  have cr: "complete_rows w s = take w s # complete_rows w (drop w s)"
    using complete_rows_step[OF w long] .
  show ?case
  proof (cases "tt \<and> count + 1 \<ge> t")
    case True
    then have k: "rows_read tt (t - count) (Suc n) = 1" "nat (max 1 (t - count)) = 1"
      by (auto simp: rows_read_def max_def)
    show ?thesis
      apply (subst sort_loop.simps)
      using Suc.prems True rd row ar k long by (simp add: Let_def cr)
  next
    case False
    let ?r2 = "r\<lparr>fh := Some (drop w s), data := table_of c (done @ [row])\<rparr>"
    have IH: "sort_loop unpack tt t ?r2 (count + 1) =
           Some (None, ?r2\<lparr>fh := Some (if tt \<and> nat (max 1 (t - (count + 1))) \<le> n
                                      then drop (nat (max 1 (t - (count + 1))) * w) (drop w s) else []),
                          data := table_of c ((done @ [row]) @ map (\<lambda>b. the (unpack f b))
                                     (take (rows_read tt (t - (count + 1)) n) (complete_rows w (drop w s)))),
                          nrows := (count + 1) + int (rows_read tt (t - (count + 1)) n)\<rparr>)"
      by (rule Suc.IH) (use Suc.prems row n' in auto)
    have k: "rows_read tt (t - count) (Suc n) = Suc (rows_read tt (t - (count + 1)) n)"
      using False by (auto simp: rows_read_def min_def max_def)
    have m: "tt \<Longrightarrow> nat (max 1 (t - count)) = Suc (nat (max 1 (t - (count + 1))))"
      using False by (auto simp: max_def)
    have fhq: "(if tt \<and> nat (max 1 (t - (count + 1))) \<le> n
                then drop (nat (max 1 (t - (count + 1))) * w) (drop w s) else [])
             = (if tt \<and> nat (max 1 (t - count)) \<le> Suc n
                then drop (nat (max 1 (t - count)) * w) s else [])"
      using m by (auto simp: add.commute)
    have step: "sort_loop unpack tt t r count = sort_loop unpack tt t ?r2 (count + 1)"
      by (subst sort_loop.simps) (use Suc.prems False rd row ar long in \<open>auto simp add: Let_def\<close>)
    show ?thesis
      unfolding step IH fhq k cr by (simp add: row)
  qed
qed

lemma table_of_Nil: "table_of c [] = Arr1 []"
  by (simp add: table_of_def)

lemma reader_sort_run:
  assumes d: "data self = Arr1 []" and s: "fh self = Some s" and w: "0 < w"
    and cfg: "(customized self \<and> fmt self = Some f \<and> nbytes self = int w) \<or>
              (\<not> customized self \<and> ncols_arg = PyInt n \<and> calcsize (prec self) = Some w0 \<and>
               int w = int w0 * n \<and> f = concat (replicate (nat n) (prec self)))"
    and up: "\<forall>b. length b = w \<longrightarrow> (\<exists>row. unpack f b = Some row \<and> length row = c)"
  shows "reader_sort calcsize unpack ncols_arg trunc self =
           Some (None,
             (if customized self then self
              else self\<lparr>nbytes := int w, ncols := n, fmt := Some f\<rparr>)
               \<lparr>fh := Some (if type_is_int trunc \<and> nat (max 1 (int_of trunc)) \<le> length s div w
                             then drop (nat (max 1 (int_of trunc)) * w) s else []),
                data := table_of c (map (\<lambda>b. the (unpack f b))
                          (take (rows_read (type_is_int trunc) (int_of trunc) (length s div w))
                             (complete_rows w s))),
                nrows := int (rows_read (type_is_int trunc) (int_of trunc) (length s div w))\<rparr>)"
proof (cases "customized self")
  case True
  with cfg have c: "fmt self = Some f" "nbytes self = int w" by auto
  have "sort_loop unpack (type_is_int trunc) (int_of trunc) self 0 = Some (None,
          self\<lparr>fh := Some (if type_is_int trunc \<and> nat (max 1 (int_of trunc - 0)) \<le> length s div w
                             then drop (nat (max 1 (int_of trunc - 0)) * w) s else []),
                data := table_of c ([] @ map (\<lambda>b. the (unpack f b))
                          (take (rows_read (type_is_int trunc) (int_of trunc - 0) (length s div w))
                             (complete_rows w s))),
                nrows := 0 + int (rows_read (type_is_int trunc) (int_of trunc - 0) (length s div w))\<rparr>)"
    by (rule sort_loop_run [where unpack = unpack and f = f and c = c, OF w up]) (use c s d in \<open>simp_all add: table_of_Nil\<close>)
  then show ?thesis using True by (simp add: reader_sort_def)
next
  case False
  with cfg have c: "ncols_arg = PyInt n" "calcsize (prec self) = Some w0" "int w = int w0 * n"
    "f = concat (replicate (nat n) (prec self))" by auto
  let ?r = "self\<lparr>nbytes := int w0 * n, ncols := n, fmt := Some f\<rparr>"
  have "sort_loop unpack (type_is_int trunc) (int_of trunc) ?r 0 = Some (None,
          ?r\<lparr>fh := Some (if type_is_int trunc \<and> nat (max 1 (int_of trunc - 0)) \<le> length s div w
                             then drop (nat (max 1 (int_of trunc - 0)) * w) s else []),
                data := table_of c ([] @ map (\<lambda>b. the (unpack f b))
                          (take (rows_read (type_is_int trunc) (int_of trunc - 0) (length s div w))
                             (complete_rows w s))),
                nrows := 0 + int (rows_read (type_is_int trunc) (int_of trunc - 0) (length s div w))\<rparr>)"
    by (rule sort_loop_run [where unpack = unpack and f = f and c = c, OF w up]) (use c s d in \<open>simp_all add: table_of_Nil\<close>)
  then show ?thesis using False c by (simp add: reader_sort_def)
qed

text \<open>
  C7: a read that meets the end of the stream with fewer bytes than one row (none
  included) ends the row loop without an exception: the rows read are the complete
  rows of the file and the bytes of the partial row are consumed and dropped. Its
  witness is the file of 2.5 rows of three doubles: exactly 2 rows.
\<close>

theorem sort_stops_at_short_read:
  assumes "data self = Arr1 []" and "fh self = Some s" and "0 < w"
    and "(customized self \<and> fmt self = Some f \<and> nbytes self = int w) \<or>
         (\<not> customized self \<and> ncols_arg = PyInt n \<and> calcsize (prec self) = Some w0 \<and>
          int w = int w0 * n \<and> f = concat (replicate (nat n) (prec self)))"
    and "\<forall>b. length b = w \<longrightarrow> (\<exists>row. unpack f b = Some row \<and> length row = c)"
    and "\<not> type_is_int trunc \<or> length s div w < nat (max 1 (int_of trunc))"
  shows "\<exists>self'. reader_sort calcsize unpack ncols_arg trunc self = Some (None, self') \<and>
           nrows self' = int (length s div w) \<and>
           data self' = table_of c (map (\<lambda>b. the (unpack f b)) (complete_rows w s)) \<and>
           fh self' = Some []"
proof -
  have k: "rows_read (type_is_int trunc) (int_of trunc) (length s div w) = length s div w"
    using assms(6) by (auto simp: rows_read_def)
  have t: "take (length s div w) (complete_rows w s) = complete_rows w s"
    by (simp add: length_complete_rows)
  show ?thesis
    unfolding reader_sort_run [where unpack = unpack and f = f and c = c and calcsize = calcsize, OF assms(1-5)] k t using assms(6) by auto
qed

theorem sort_stops_at_short_read_witness:
  "\<exists>self'. reader_sort calcsize_d unpack_d (PyInt 3) PyNone
            \<lparr>nrows = 0, ncols = 0, data = Arr1 [], prec = ''d'', fh = Some (replicate 60 0),
             customized = False, fmt = None, nbytes = 0\<rparr> = Some (None, self') \<and>
           nrows self' = 2 \<and> fh self' = Some []"
proof -
  let ?self = "\<lparr>nrows = 0, ncols = 0, data = Arr1 [], prec = ''d'', fh = Some (replicate 60 0),
             customized = False, fmt = None, nbytes = 0\<rparr> :: byte list reader"
  have "\<exists>self'. reader_sort calcsize_d unpack_d (PyInt 3) PyNone ?self = Some (None, self') \<and>
           nrows self' = int (length (replicate 60 (0::byte)) div 24) \<and>
           data self' = table_of 3 (map (\<lambda>b. the (unpack_d ''ddd'' b)) (complete_rows 24 (replicate 60 0))) \<and>
           fh self' = Some []"
  proof (rule sort_stops_at_short_read [where f = "''ddd''" and n = 3 and ?w0.0 = 8])
    show "customized ?self \<and> fmt ?self = Some ''ddd'' \<and> nbytes ?self = int 24 \<or>
          \<not> customized ?self \<and> PyInt 3 = PyInt 3 \<and> calcsize_d (prec ?self) = Some 8 \<and>
          int 24 = int 8 * 3 \<and> ''ddd'' = concat (replicate (nat 3) (prec ?self))"
      by (simp add: calcsize_d_def numeral_3_eq_3)
    show "\<forall>b. length b = 24 \<longrightarrow> (\<exists>row. unpack_d ''ddd'' b = Some row \<and> length row = 3)"
      by (simp add: unpack_d_def)
  qed simp_all
  then show ?thesis by auto
qed

text \<open>
  C8: on a reader with no customized format, a call of sort whose ncols is missing or
  is not an int fails (with the AssertionError of the format check) before anything is
  read: the reader, its stream included, is left as it was.
\<close>

theorem sort_without_format_fails:
  "\<not> customized self \<Longrightarrow> \<not> type_is_int ncols_arg \<Longrightarrow>
   reader_sort calcsize unpack ncols_arg trunc self = Some (Some AssertionError, self)"
  by (simp add: reader_sort_def)


theorem sort_without_format_fails_witness:
  "reader_sort calcsize_d unpack_d PyNone (PyInt 2)
     \<lparr>nrows = 0, ncols = 0, data = Arr1 [], prec = ''d'', fh = Some (replicate 72 0),
      customized = False, fmt = None, nbytes = 0\<rparr>
   = Some (Some AssertionError,
       \<lparr>nrows = 0, ncols = 0, data = Arr1 [], prec = ''d'', fh = Some (replicate 72 0),
        customized = False, fmt = None, nbytes = 0\<rparr>)"
  by (rule sort_without_format_fails) simp_all

lemma upt_0_1: "[0..<1] = [0]"
  by (simp add: upt_rec)

text \<open>
  C6: the rows read should make a two-dimensional table of shape \<open>(r, c)\<close> for every
  number \<open>r\<close> of rows, \<open>r = 1\<close> included. On a file of exactly one row of three
  doubles the code runs as follows: \<open>shape()\<close> reports \<open>(1, 3)\<close>, but \<open>data\<close> is the
  one-dimensional array of shape \<open>(3,)\<close>, since the first row is stored as it is and
  \<open>np.vstack\<close> runs from the second row on only.
\<close>

theorem sort_one_row_is_not_a_table:
  "\<exists>self'. reader_sort calcsize_d unpack_d (PyInt 3) PyNone
            \<lparr>nrows = 0, ncols = 0, data = Arr1 [], prec = ''d'', fh = Some (replicate 24 0),
             customized = False, fmt = None, nbytes = 0\<rparr> = Some (None, self') \<and>
           reader_shape self' = (1, 3) \<and> arr_shape (data self') = [3]"
proof -
  let ?self = "\<lparr>nrows = 0, ncols = 0, data = Arr1 [], prec = ''d'', fh = Some (replicate 24 0),
             customized = False, fmt = None, nbytes = 0\<rparr> :: byte list reader"
  have cfg: "customized ?self \<and> fmt ?self = Some ''ddd'' \<and> nbytes ?self = int 24 \<or>
          \<not> customized ?self \<and> PyInt 3 = PyInt 3 \<and> calcsize_d (prec ?self) = Some 8 \<and>
          int 24 = int 8 * 3 \<and> ''ddd'' = concat (replicate (nat 3) (prec ?self))"
    by (simp add: calcsize_d_def numeral_3_eq_3)
  have up: "\<forall>b. length b = 24 \<longrightarrow> (\<exists>row. unpack_d ''ddd'' b = Some row \<and> length row = 3)"
    by (simp add: unpack_d_def)
  have rows: "complete_rows 24 (replicate 24 (0::byte)) = [replicate 24 0]"
    by (simp add: complete_rows_def upt_0_1)
  have run: "reader_sort calcsize_d unpack_d (PyInt 3) PyNone ?self =
     Some (None,
             (if customized ?self then ?self
              else ?self\<lparr>nbytes := int 24, ncols := 3, fmt := Some ''ddd''\<rparr>)
               \<lparr>fh := Some (if type_is_int PyNone \<and> nat (max 1 (int_of PyNone)) \<le> length (replicate 24 (0::byte)) div 24
                             then drop (nat (max 1 (int_of PyNone)) * 24) (replicate 24 (0::byte)) else []),
                data := table_of 3 (map (\<lambda>b. the (unpack_d ''ddd'' b))
                          (take (rows_read (type_is_int PyNone) (int_of PyNone) (length (replicate 24 (0::byte)) div 24))
                             (complete_rows 24 (replicate 24 (0::byte))))),
                nrows := int (rows_read (type_is_int PyNone) (int_of PyNone) (length (replicate 24 (0::byte)) div 24))\<rparr>)"
    by (rule reader_sort_run [where unpack = unpack_d and f = "''ddd''" and c = 3
          and calcsize = calcsize_d and self = ?self and w = 24 and n = 3 and ?w0.0 = 8
          and ncols_arg = "PyInt 3", OF _ _ _ cfg up]) simp_all
  show ?thesis
    unfolding run rows
    by (simp add: rows_read_def unpack_d_def table_of_def reader_shape_def)
qed

text \<open>
  C10: with an int \<open>trunc\<close> the read should give \<open>min(trunc, available rows)\<close> rows.
  On a file of three rows and \<open>trunc = 0\<close> the code runs as follows: one row is read
  and counted before the truncation test, so the read gives 1 row, not 0, and leaves
  the other two in the stream.
\<close>

theorem sort_trunc_zero_reads_a_row:
  "\<exists>self'. reader_sort calcsize_d unpack_d (PyInt 3) (PyInt 0)
            \<lparr>nrows = 0, ncols = 0, data = Arr1 [], prec = ''d'', fh = Some (replicate 72 0),
             customized = False, fmt = None, nbytes = 0\<rparr> = Some (None, self') \<and>
           nrows self' = 1 \<and> fh self' = Some (replicate 48 0)"
proof -
  let ?self = "\<lparr>nrows = 0, ncols = 0, data = Arr1 [], prec = ''d'', fh = Some (replicate 72 0),
             customized = False, fmt = None, nbytes = 0\<rparr> :: byte list reader"
  have cfg: "customized ?self \<and> fmt ?self = Some ''ddd'' \<and> nbytes ?self = int 24 \<or>
          \<not> customized ?self \<and> PyInt 3 = PyInt 3 \<and> calcsize_d (prec ?self) = Some 8 \<and>
          int 24 = int 8 * 3 \<and> ''ddd'' = concat (replicate (nat 3) (prec ?self))"
    by (simp add: calcsize_d_def numeral_3_eq_3)
  have up: "\<forall>b. length b = 24 \<longrightarrow> (\<exists>row. unpack_d ''ddd'' b = Some row \<and> length row = 3)"
    by (simp add: unpack_d_def)
  have run: "reader_sort calcsize_d unpack_d (PyInt 3) (PyInt 0) ?self =
     Some (None,
             (if customized ?self then ?self
              else ?self\<lparr>nbytes := int 24, ncols := 3, fmt := Some ''ddd''\<rparr>)
               \<lparr>fh := Some (if type_is_int (PyInt 0) \<and> nat (max 1 (int_of (PyInt 0))) \<le> length (replicate 72 (0::byte)) div 24
                             then drop (nat (max 1 (int_of (PyInt 0))) * 24) (replicate 72 (0::byte)) else []),
                data := table_of 3 (map (\<lambda>b. the (unpack_d ''ddd'' b))
                          (take (rows_read (type_is_int (PyInt 0)) (int_of (PyInt 0)) (length (replicate 72 (0::byte)) div 24))
                             (complete_rows 24 (replicate 72 (0::byte))))),
                nrows := int (rows_read (type_is_int (PyInt 0)) (int_of (PyInt 0)) (length (replicate 72 (0::byte)) div 24))\<rparr>)"
    by (rule reader_sort_run [where unpack = unpack_d and f = "''ddd''" and c = 3
          and calcsize = calcsize_d and self = ?self and w = 24 and n = 3 and ?w0.0 = 8
          and ncols_arg = "PyInt 3", OF _ _ _ cfg up]) simp_all
  show ?thesis
    unfolding run
    by (simp add: rows_read_def)
qed

section \<open>Results on the writers\<close>

subsection \<open>Sequences of writes, packing\<close>

lemma then_wr_None: "then_wr (a, None) w = (a @ fst w, snd w)"
  by (cases w) simp

lemma snd_then_wr: "snd (then_wr u w) = (case snd u of None \<Rightarrow> snd w | Some e \<Rightarrow> Some e)"
  by (cases u; cases w; cases "snd u") auto

lemma fst_then_wr: "fst (then_wr u w) = (if snd u = None then fst u @ fst w else fst u)"
  by (cases u; cases w; cases "snd u") auto

lemma snd_seqs_None: "snd (seqs ws) = None \<longleftrightarrow> (\<forall>w\<in>set ws. snd w = None)"
  by (induction ws) (auto simp: snd_then_wr split: option.splits)

lemma fst_seqs_ok: "\<forall>w\<in>set ws. snd w = None \<Longrightarrow> fst (seqs ws) = concat (map fst ws)"
  by (induction ws) (auto simp: fst_then_wr snd_seqs_None)

lemma length_le32: "length (le32 w) = 4"
  by (simp add: le32_def)

lemma pack_i_ok: "pack_i v = Inr bs \<longleftrightarrow> - (2 ^ 31) \<le> v \<and> v < 2 ^ 31 \<and> bs = le32 (word_of_int v)"
  by (auto simp: pack_i_def)

lemma those_map_Some: "those (map f xs) = Some ys \<longleftrightarrow> map f xs = map Some ys"
proof (induction xs arbitrary: ys)
  case Nil show ?case by auto
next
  case (Cons x xs)
  show ?case by (cases "f x"; cases ys) (auto simp: Cons.IH)
qed

lemma those_None: "those (map f xs) = None \<longleftrightarrow> (\<exists>x\<in>set xs. f x = None)"
  by (induction xs) (auto split: option.splits)

lemma length_f_indices: "length (f_indices sh) = prod_list sh"
proof (induction sh)
  case Nil show ?case by simp
next
  case (Cons d ds)
  have "length (concat (map (\<lambda>rest. map (\<lambda>i. i # rest) [0..<d]) (f_indices ds)))
        = sum_list (map (\<lambda>rest. d) (f_indices ds))"
    by (simp add: length_concat comp_def)
  also have "\<dots> = d * length (f_indices ds)"
    by (simp add: sum_list_triv)
  finally show ?case using Cons by simp
qed

lemma length_flatten_F: "length (flatten_F a) = nd_size a"
  by (simp add: flatten_F_def nd_size_def length_f_indices)

subsection \<open>Offsets\<close>

lemma encode_append: "encode (a @ b) = encode a @ encode b"
  by (simp add: encode_def)

lemma encode_Nil: "encode [] = []"
  by (simp add: encode_def)

lemma str_nat_1: "str_nat 1 = ''1''"
  by (simp add: str_nat.simps)

lemma str_int_0: "str_int 0 = ''0''"
  by (simp add: str_int_def str_nat.simps)

lemma snd_field_decls:
  "snd (field_decls norm off kw) = None \<longleftrightarrow> (\<forall>kv\<in>set kw. shape (snd kv) \<noteq> [])"
proof (induction kw arbitrary: off)
  case Nil
  show ?case by (simp add: fh_write_def)
next
  case (Cons kv kw)
  obtain key val where kv: "kv = (key, val)" by (cases kv)
  show ?case
    by (cases "shape val") (simp_all add: kv Cons.IH snd_then_wr fh_write_def raise_error_def)
qed

lemma fst_field_decls:
  "\<forall>kv\<in>set kw. shape (snd kv) \<noteq> [] \<Longrightarrow>
   fst (field_decls (\<lambda>v. v) off kw) =
     encode (concat (map decl_text
       (zip (map fst kw)
          (zip (running_offsets off (map (\<lambda>kv. nd_size (snd kv)) kw))
               (map (\<lambda>kv. hd (shape (snd kv))) kw)))))"
proof (induction kw arbitrary: off)
  case Nil
  show ?case by (simp add: fh_write_def encode_def)
next
  case (Cons kv kw)
  obtain key val where kv: "kv = (key, val)" by (cases kv)
  from Cons.prems obtain d ds where sh: "shape val = d # ds"
    by (cases "shape val") (auto simp: kv)
  have rest: "\<forall>kv\<in>set kw. shape (snd kv) \<noteq> []" using Cons.prems by simp
  show ?case
    by (simp add: kv sh fst_then_wr fh_write_def Cons.IH [OF rest] encode_append decl_text_def)
qed

lemma running_offsets_lower: "x \<in> set (running_offsets off ns) \<Longrightarrow> off \<le> x"
proof (induction ns arbitrary: off)
  case Nil then show ?case by simp
next
  case (Cons n ns)
  then show ?case by (fastforce)
qed

lemma sorted_running_offsets: "sorted_wrt (<) (running_offsets off ns)"
proof (induction ns arbitrary: off)
  case Nil show ?case by simp
next
  case (Cons n ns)
  have "\<forall>x\<in>set (running_offsets (off + (int n * 4 + 4)) ns). off < x"
    using running_offsets_lower by fastforce
  then show ?case using Cons by simp
qed

lemma length_running_offsets: "length (running_offsets off ns) = length ns"
  by (induction ns arbitrary: off) auto

lemma running_offsets_Nil: "running_offsets off ns = [] \<longleftrightarrow> ns = []"
  by (cases ns) auto

lemma block_positions_from:
  "map length blocks = map (\<lambda>n. 4 + 4 * n) ns \<Longrightarrow>
   map (\<lambda>i. off + int (length (concat (take i blocks)))) [0..<length blocks] = running_offsets off ns"
proof (induction blocks arbitrary: off ns)
  case Nil
  then show ?case by simp
next
  case (Cons b blocks)
  then obtain n ns' where ns: "ns = n # ns'" by (cases ns) auto
  with Cons.prems have b: "length b = 4 + 4 * n" and r: "map length blocks = map (\<lambda>n. 4 + 4 * n) ns'"
    by auto
  have u: "[0..<Suc m] = 0 # map Suc [0..<m]" for m
    by (simp add: upt_conv_Cons map_Suc_upt del: upt_Suc)
  have "map (\<lambda>i. off + int (length (concat (take i (b # blocks))))) [0..<length (b # blocks)]
        = off # map (\<lambda>i. (off + (int n * 4 + 4)) + int (length (concat (take i blocks)))) [0..<length blocks]"
    unfolding length_Cons u by (simp add: comp_def b)
  also have "\<dots> = off # running_offsets (off + (int n * 4 + 4)) ns'"
    using Cons.IH [OF r] by simp
  finally show ?case by (simp add: ns)
qed

lemma block_positions_running:
  "map length blocks = map (\<lambda>n. 4 + 4 * n) ns \<Longrightarrow> block_positions blocks = running_offsets 0 ns"
  using block_positions_from [of blocks ns 0] by (simp add: block_positions_def)

lemma snd_then_wr_None: "snd (then_wr u w) = None \<longleftrightarrow> snd u = None \<and> snd w = None"
  by (auto simp: snd_then_wr split: option.splits)

lemma snd_write_pack: "snd (write_pack p) = None \<longleftrightarrow> (\<exists>bs. p = Inr bs)"
  by (cases p) (simp_all add: raise_error_def fh_write_def)

lemma fst_write_pack_Inr: "fst (write_pack (Inr bs)) = bs"
  by (simp add: fh_write_def)

lemma pack_f_ok: "(\<exists>bs. pack_f f32 vals = Inr bs) \<longleftrightarrow> (\<forall>v\<in>set vals. f32 v \<noteq> None)"
proof (cases "those (map f32 vals)")
  case None
  then have "pack_f f32 vals = Inl OverflowError" by (simp add: pack_f_def)
  moreover from None have "\<exists>x\<in>set vals. f32 x = None" by (simp add: those_None)
  ultimately show ?thesis by auto
next
  case (Some ws)
  then have "\<not> (\<exists>x\<in>set vals. f32 x = None)"
    using those_None [of f32 vals] by simp
  with Some show ?thesis by (auto simp: pack_f_def)
qed

lemma pack_f_bytes:
  assumes "\<forall>v\<in>set vals. f32 v \<noteq> None"
  shows "pack_f f32 vals = Inr (concat (map (\<lambda>v. le32 (the (f32 v))) vals))"
proof -
  have "map f32 vals = map Some (map (\<lambda>v. the (f32 v)) vals)"
    using assms by (induction vals) auto
  then have "those (map f32 vals) = Some (map (\<lambda>v. the (f32 v)) vals)"
    by (simp only: those_map_Some)
  then show ?thesis by (simp add: pack_f_def comp_def)
qed

lemma length_concat_le32: "length (concat (map (\<lambda>v. le32 (g v)) vals)) = 4 * length vals"
  by (induction vals) (simp_all add: length_le32)

lemma snd_float_block:
  "snd (float_block f32 vals) = None \<longleftrightarrow>
     4 * int (length vals) < 2 ^ 31 \<and> (\<forall>v\<in>set vals. f32 v \<noteq> None)"
proof -
  have "(\<exists>bs. pack_i (4 * int (length vals)) = Inr bs) \<longleftrightarrow> 4 * int (length vals) < 2 ^ 31"
    by (auto simp: pack_i_def)
  then show ?thesis
    by (simp add: float_block_def snd_then_wr_None snd_write_pack pack_f_ok)
qed

lemma fst_float_block:
  assumes "snd (float_block f32 vals) = None"
  shows "fst (float_block f32 vals) =
           le32 (word_of_int (4 * int (length vals))) @ concat (map (\<lambda>v. le32 (the (f32 v))) vals)"
proof -
  from assms have a: "4 * int (length vals) < 2 ^ 31" and b: "\<forall>v\<in>set vals. f32 v \<noteq> None"
    by (simp_all add: snd_float_block)
  have p: "pack_i (4 * int (length vals)) = Inr (le32 (word_of_int (4 * int (length vals))))"
    using a by (simp add: pack_i_def)
  show ?thesis
    unfolding float_block_def p pack_f_bytes [OF b]
    by (simp add: fst_then_wr fh_write_def)
qed

lemma length_float_block:
  "snd (float_block f32 vals) = None \<Longrightarrow> length (fst (float_block f32 vals)) = 4 + 4 * length vals"
  by (simp add: fst_float_block length_le32 length_concat_le32)

lemma take4_float_block:
  "snd (float_block f32 vals) = None \<Longrightarrow>
   take 4 (fst (float_block f32 vals)) = le32 (word_of_int (4 * int (length vals)))"
  by (simp add: fst_float_block length_le32)

lemma field_blocks_float_block:
  "field_blocks f32 kwargs = seqs (map (\<lambda>kv. float_block f32 (flatten_F (snd kv))) kwargs)"
  by (simp add: field_blocks_def float_block_def length_flatten_F comp_def)

lemma fst_trailer: "snd trailer = None"
  by (simp add: trailer_def snd_then_wr_None fh_write_def)

subsection \<open>vtr\<close>

lemma vtr_as_seqs:
  "vtr f32 x y z kwargs =
     seqs (vtr_header (length x) (length y) (length z) kwargs # fh_write (encode ''_'')
           # map (float_block f32) (vtr_arrays x y z kwargs) @ [trailer])"
proof -
  have "seqs (map (float_block f32) (map (\<lambda>kv. flatten_F (snd kv)) kwargs) @ [trailer])
        = then_wr (if length kwargs > 0 then field_blocks f32 kwargs else fh_write []) (seqs [trailer])"
  proof (cases kwargs)
    case Nil
    then show ?thesis by (simp add: fh_write_def then_wr_None)
  next
    case (Cons kv kw)
    have app: "seqs (ws @ vs) = then_wr (seqs ws) (seqs vs)" for ws vs
    proof (induction ws)
      case Nil show ?case by (simp add: then_wr_None)
    next
      case (Cons w ws)
      show ?case
        by (cases w; cases "snd w"; cases "seqs ws"; cases "snd (seqs ws)"; cases "seqs vs")
           (auto simp: Cons)
    qed
    show ?thesis
      unfolding app by (simp add: Cons field_blocks_float_block comp_def)
  qed
  then show ?thesis
    by (simp add: vtr_def vtr_arrays_def)
qed

lemma vtr_header_ok:
  "snd (vtr_header nx ny nz kwargs) = None \<longleftrightarrow> (\<forall>kv\<in>set kwargs. shape (snd kv) \<noteq> [])"
  by (simp add: vtr_header_def point_data_def snd_then_wr_None fh_write_def snd_field_decls Let_def)

lemma vtr_header_bytes:
  assumes "\<forall>kv\<in>set kwargs. shape (snd kv) \<noteq> []"
  shows "fst (vtr_header nx ny nz kwargs) =
     encode (vtr_header_text nx ny nz
       (zip (vtr_names kwargs)
          (zip (running_offsets 0 (nx # ny # nz # map (\<lambda>kv. nd_size (snd kv)) kwargs))
               (vtr_ncomps kwargs))))"
proof -
  have o: True by simp
  have str_nat_Suc0: "str_nat (Suc 0) = ''1''"
    by (simp add: str_nat.simps)
  show ?thesis
  proof (cases kwargs)
    case Nil
    show ?thesis
      unfolding vtr_header_def vtr_header_text_def Let_def Nil
      by (simp add: point_data_def fst_then_wr snd_then_wr_None fh_write_def encode_def
          vtr_names_def vtr_ncomps_def decl_text_def str_nat_Suc0 o)
  next
    case (Cons kv kw)
    have fd: "snd (field_decls (\<lambda>v. v) off kwargs) = None" for off
      using assms by (simp add: snd_field_decls)
    have "0 < length kwargs" using Cons by simp
    then show ?thesis
      unfolding vtr_header_def vtr_header_text_def Let_def
      by (simp add: point_data_def fst_then_wr snd_then_wr_None fh_write_def encode_def
          vtr_names_def vtr_ncomps_def decl_text_def str_nat_Suc0 o fd running_offsets_Nil
          fst_field_decls [OF assms, unfolded encode_def])
  qed
qed

lemma map_length_vtr_arrays:
  "map length (vtr_arrays x y z kwargs) =
     length x # length y # length z # map (\<lambda>kv. nd_size (snd kv)) kwargs"
  by (simp add: vtr_arrays_def length_flatten_F comp_def)

lemma vtr_ok_parts:
  assumes "snd (vtr f32 x y z kwargs) = None"
  shows "\<forall>kv\<in>set kwargs. shape (snd kv) \<noteq> []"
    and "\<forall>a\<in>set (vtr_arrays x y z kwargs). snd (float_block f32 a) = None"
  using assms unfolding vtr_as_seqs snd_seqs_None
  by (simp_all add: vtr_header_ok)

lemma vtr_ok_iff:
  "snd (vtr f32 x y z kwargs) = None \<longleftrightarrow>
     (\<forall>kv\<in>set kwargs. shape (snd kv) \<noteq> []) \<and>
     (\<forall>a\<in>set (vtr_arrays x y z kwargs). snd (float_block f32 a) = None)"
  unfolding vtr_as_seqs snd_seqs_None
  by (auto simp: vtr_header_ok fh_write_def fst_trailer)

lemma vtr_bytes:
  assumes "snd (vtr f32 x y z kwargs) = None"
  shows "fst (vtr f32 x y z kwargs) =
           fst (vtr_header (length x) (length y) (length z) kwargs) @ encode ''_''
           @ concat (map (\<lambda>a. fst (float_block f32 a)) (vtr_arrays x y z kwargs)) @ fst trailer"
proof -
  let ?parts = "vtr_header (length x) (length y) (length z) kwargs # fh_write (encode ''_'')
           # map (float_block f32) (vtr_arrays x y z kwargs) @ [trailer]"
  have "\<forall>w\<in>set ?parts. snd w = None"
    using assms unfolding vtr_as_seqs snd_seqs_None .
  then have "fst (seqs ?parts) = concat (map fst ?parts)"
    by (rule fst_seqs_ok)
  then show ?thesis
    unfolding vtr_as_seqs by (simp add: fh_write_def comp_def)
qed

text \<open>
  C1: in every rectilinear grid file that vtr writes, the offset that the header
  declares for an array is the byte position, counted from the byte after the \<open>_\<close>,
  at which the block of that array starts, and the block starts with the four bytes of
  its length prefix. The offsets are the running counter in which an array of \<open>n\<close>
  values adds \<open>4 + 4*n\<close> bytes, and they are strictly increasing.
\<close>

theorem vtr_offsets_are_block_positions:
  assumes "vtr f32 x y z kwargs = (bs, None)"
  shows "let arrays = vtr_arrays x y z kwargs;
             blocks = map (\<lambda>a. fst (float_block f32 a)) arrays;
             pos = block_positions blocks
         in bs = encode (vtr_header_text (length x) (length y) (length z)
                           (zip (vtr_names kwargs) (zip pos (vtr_ncomps kwargs))))
                 @ encode ''_'' @ concat blocks @ fst trailer
            \<and> (\<forall>i<length arrays.
                  take 4 (blocks ! i) = le32 (word_of_int (4 * int (length (arrays ! i))))
                  \<and> length (blocks ! i) = 4 + 4 * length (arrays ! i))
            \<and> pos = running_offsets 0 (map length arrays)
            \<and> sorted_wrt (<) pos"
proof -
  let ?arrays = "vtr_arrays x y z kwargs"
  let ?blocks = "map (\<lambda>a. fst (float_block f32 a)) ?arrays"
  from assms have ok: "snd (vtr f32 x y z kwargs) = None" and bs: "bs = fst (vtr f32 x y z kwargs)"
    by simp_all
  note sh = vtr_ok_parts(1) [OF ok] and fb = vtr_ok_parts(2) [OF ok]
  have len: "map length ?blocks = map (\<lambda>n. 4 + 4 * n) (map length ?arrays)"
    using fb by (simp add: length_float_block)
  have pos: "block_positions ?blocks = running_offsets 0 (map length ?arrays)"
    by (rule block_positions_running [OF len])
  have whole: "bs = encode (vtr_header_text (length x) (length y) (length z)
                           (zip (vtr_names kwargs) (zip (block_positions ?blocks) (vtr_ncomps kwargs))))
                 @ encode ''_'' @ concat ?blocks @ fst trailer"
    unfolding bs vtr_bytes [OF ok] vtr_header_bytes [OF sh] pos map_length_vtr_arrays ..
  have each: "\<forall>i<length ?arrays.
                  take 4 (?blocks ! i) = le32 (word_of_int (4 * int (length (?arrays ! i))))
                  \<and> length (?blocks ! i) = 4 + 4 * length (?arrays ! i)"
    using fb by (simp add: take4_float_block length_float_block)
  show ?thesis
    unfolding Let_def using whole each pos sorted_running_offsets [of 0 "map length ?arrays"]
    by simp
qed

theorem vtr_offsets_are_block_positions_witness:
  "snd (vtr Some [1] [2, 3] [4 :: 32 word] [(''p'', \<lparr>shape = [1, 1, 2, 1], item = (\<lambda>ix. 5)\<rparr>)]) = None
   \<and> block_positions (map (\<lambda>a. fst (float_block Some a))
        (vtr_arrays [1] [2, 3] [4 :: 32 word] [(''p'', \<lparr>shape = [1, 1, 2, 1], item = (\<lambda>ix. 5)\<rparr>)]))
     = [0, 8, 20, 28]"
proof -
  let ?kw = "[(''p'', \<lparr>shape = [1, 1, 2, 1], item = (\<lambda>ix. 5 :: 32 word)\<rparr>)]"
  have ok: "snd (vtr Some [1] [2, 3] [4 :: 32 word] ?kw) = None"
    by (simp add: vtr_ok_iff vtr_arrays_def snd_float_block length_flatten_F nd_size_def)
  then have "vtr Some [1] [2, 3] [4 :: 32 word] ?kw = (fst (vtr Some [1] [2, 3] [4 :: 32 word] ?kw), None)"
    by (metis prod.collapse)
  from vtr_offsets_are_block_positions [OF this]
  have "block_positions (map (\<lambda>a. fst (float_block Some a)) (vtr_arrays [1] [2, 3] [4 :: 32 word] ?kw))
        = running_offsets 0 (map length (vtr_arrays [1] [2, 3] [4 :: 32 word] ?kw))"
    by (simp add: Let_def)
  also have "\<dots> = [0, 8, 20, 28]"
    by (simp add: map_length_vtr_arrays nd_size_def)
  finally show ?thesis using ok by simp
qed

subsection \<open>The order of the values of a field\<close>

lemma mult_succ_le: "p < n \<Longrightarrow> d * p + d \<le> d * (n::nat)"
proof -
  assume "p < n"
  then have "Suc p \<le> n" by simp
  then have "d * Suc p \<le> d * n" by (rule mult_le_mono2)
  then show ?thesis by simp
qed

lemma drop_concat_uniform:
  "\<forall>x\<in>set xs. length (g x) = d \<Longrightarrow>
   drop (d * p) (concat (map g xs)) = concat (map g (drop p xs))"
proof (induction xs arbitrary: p)
  case Nil
  show ?case by simp
next
  case (Cons x xs)
  show ?case
  proof (cases p)
    case 0
    then show ?thesis by simp
  next
    case (Suc q)
    have "drop (d * Suc q) (g x @ concat (map g xs)) = drop (d * q) (concat (map g xs))"
      using Cons.prems by simp
    then show ?thesis using Cons by (simp add: Suc)
  qed
qed

lemma take_drop_concat_uniform:
  assumes "\<forall>x\<in>set xs. length (g x) = d" "p < length xs"
  shows "take d (drop (d * p) (concat (map g xs))) = g (xs ! p)"
proof -
  from assms(2) obtain y ys where dr: "drop p xs = y # ys" and y: "y = xs ! p"
    by (metis Cons_nth_drop_Suc)
  have "length (g y) = d" using assms y by simp
  then show ?thesis
    unfolding drop_concat_uniform [OF assms(1)] dr by (simp add: y)
qed

lemma nth_concat_uniform:
  assumes "\<forall>x\<in>set xs. length (g x) = d" "p < length xs" "c < d"
  shows "concat (map g xs) ! (c + d * p) = g (xs ! p) ! c"
proof -
  have "concat (map g xs) ! (c + d * p) = drop (d * p) (concat (map g xs)) ! c"
  proof -
    have "d * p + c \<le> length (concat (map g xs))"
    proof -
      have "length (concat (map g xs)) = d * length xs"
        using assms(1) by (induction xs) auto
      moreover have "d * p + d \<le> d * length xs"
        using assms(2) by (rule mult_succ_le)
      ultimately show ?thesis using assms(3) by simp
    qed
    then show ?thesis by (simp add: add.commute)
  qed
  also have "\<dots> = take d (drop (d * p) (concat (map g xs))) ! c"
    using assms(3) by simp
  also have "\<dots> = g (xs ! p) ! c"
    by (simp add: take_drop_concat_uniform [OF assms(1,2)])
  finally show ?thesis .
qed

lemma flatten_F_nth:
  assumes "shape val = ndim # rest" "c < ndim" "p < prod_list rest"
  shows "flatten_F val ! (c + ndim * p) = item val (c # f_indices rest ! p)"
proof -
  have p: "p < length (f_indices rest)" using assms(3) by (simp add: length_f_indices)
  have "concat (map (\<lambda>r. map (\<lambda>i. i # r) [0..<ndim]) (f_indices rest)) ! (c + ndim * p)
        = map (\<lambda>i. i # (f_indices rest ! p)) [0..<ndim] ! c"
    by (rule nth_concat_uniform) (use p assms(2) in simp_all)
  also have "\<dots> = c # f_indices rest ! p" using assms(2) by simp
  finally have ix: "f_indices (shape val) ! (c + ndim * p) = c # f_indices rest ! p"
    by (simp add: assms(1))
  have "c + ndim * p < length (f_indices (shape val))"
  proof -
    have "ndim * p + ndim \<le> ndim * prod_list rest"
      using assms(3) by (rule mult_succ_le)
    moreover have "length (f_indices (shape val)) = ndim * prod_list rest"
      by (simp only: assms(1) length_f_indices prod_list.Cons)
    ultimately show ?thesis using assms(2) by linarith
  qed
  then show ?thesis by (simp add: flatten_F_def ix)
qed

lemma seqs_single: "seqs [w] = w"
  by (cases w; cases "snd w") auto

text \<open>
  C2, as amended: the block written for a field holds the array flattened in
  column-major order, in which the leading axis, the component axis, varies fastest:
  the components of one grid point are adjacent. The value of component \<open>c\<close> at the
  \<open>p\<close>-th point (the points in column-major order of the other axes) is the value
  number \<open>c + ndim*p\<close> of the block, at byte \<open>4 + 4*(c + ndim*p)\<close>. The three writers
  write their fields through \<open>field_blocks\<close>.
\<close>

theorem field_block_is_column_major:
  assumes "(key, val) \<in> set kwargs" and "shape val = ndim # rest"
    and "c < ndim" and "p < prod_list rest"
    and "snd (field_blocks f32 kwargs) = None"
  shows "field_blocks f32 kwargs = seqs (map (\<lambda>kv. float_block f32 (flatten_F (snd kv))) kwargs)
       \<and> flatten_F val ! (c + ndim * p) = item val (c # f_indices rest ! p)
       \<and> take 4 (drop (4 + 4 * (c + ndim * p)) (fst (float_block f32 (flatten_F val))))
           = le32 (the (f32 (item val (c # f_indices rest ! p))))"
proof -
  have fb: "field_blocks f32 kwargs = seqs (map (\<lambda>kv. float_block f32 (flatten_F (snd kv))) kwargs)"
    by (rule field_blocks_float_block)
  have ok: "snd (float_block f32 (flatten_F val)) = None"
    using assms(1,5) unfolding fb snd_seqs_None by force
  have nth: "flatten_F val ! (c + ndim * p) = item val (c # f_indices rest ! p)"
    by (rule flatten_F_nth [OF assms(2-4)])
  have len: "c + ndim * p < length (flatten_F val)"
  proof -
    have "ndim * p + ndim \<le> ndim * prod_list rest"
      using assms(4) by (rule mult_succ_le)
    then show ?thesis
      using assms(3) by (simp add: length_flatten_F nd_size_def assms(2))
  qed
  have "take 4 (drop (4 + 4 * (c + ndim * p)) (fst (float_block f32 (flatten_F val))))
        = take 4 (drop (4 * (c + ndim * p)) (concat (map (\<lambda>v. le32 (the (f32 v))) (flatten_F val))))"
    by (simp add: fst_float_block [OF ok] length_le32)
  also have "\<dots> = le32 (the (f32 (flatten_F val ! (c + ndim * p))))"
    by (rule take_drop_concat_uniform) (use len in \<open>simp_all add: length_le32\<close>)
  finally show ?thesis using fb nth by simp
qed

theorem field_block_is_column_major_witness:
  "flatten_F example_field ! 1 = 10
   \<and> take 4 (drop 8 (fst (float_block Some (flatten_F example_field)))) = le32 10"
proof -
  have ok: "snd (field_blocks Some [(''v'', example_field)]) = None"
    by (simp add: field_blocks_float_block snd_then_wr_None snd_float_block length_flatten_F
        nd_size_def example_field_def)
  have sh: "shape example_field = 2 # [2]"
    by (simp add: example_field_def)
  have "(''v'', example_field) \<in> set [(''v'', example_field)]" by simp
  from field_block_is_column_major [OF this sh _ _ ok, of 1 0]
  show ?thesis by (simp add: upt_rec example_field_def)
qed

text \<open>
  C2 as stated fails: the block of the example field holds \<open>0, 10, 1, 11\<close>, the two
  components of the first point and then those of the second, where the
  component-major layout is \<open>0, 1, 10, 11\<close>.
\<close>

theorem component_major_counterexample:
  "flatten_F example_field = [0, 10, 1, 11]
   \<and> component_major example_field = [0, 1, 10, 11]
   \<and> fst (field_blocks Some [(''v'', example_field)])
     \<noteq> fst (float_block Some (component_major example_field))"
proof -
  have f: "flatten_F example_field = [0, 10, 1, 11]"
    by (simp add: flatten_F_def upt_rec example_field_def)
  have c: "component_major example_field = [0, 1, 10, 11]"
    by (simp add: component_major_def component_def flatten_F_def upt_rec example_field_def)
  have "fst (field_blocks Some [(''v'', example_field)]) = fst (float_block Some [0, 10, 1, 11])"
    by (simp add: field_blocks_float_block seqs_single f del: seqs.simps)
  moreover have "fst (float_block Some [0, 10, 1, 11 :: 32 word])
      \<noteq> fst (float_block Some [0, 1, 10, 11 :: 32 word])"
    by (simp add: float_block_def pack_i_def pack_f_def fh_write_def le32_def)
  ultimately show ?thesis using f c by simp
qed

subsection \<open>When a write succeeds\<close>

lemma snd_field_blocks:
  "snd (field_blocks f32 kwargs) = None \<longleftrightarrow>
     (\<forall>kv\<in>set kwargs. snd (float_block f32 (flatten_F (snd kv))) = None)"
  by (simp add: field_blocks_float_block snd_seqs_None)

lemma snd_fields_part:
  "snd (if length kwargs > 0 then field_blocks f32 kwargs else fh_write []) = None \<longleftrightarrow>
     (\<forall>kv\<in>set kwargs. snd (float_block f32 (flatten_F (snd kv))) = None)"
  by (cases kwargs) (simp_all add: snd_field_blocks fh_write_def)

lemma vts_header_ok:
  "snd (vts_header nx ny nz kwargs) = None \<longleftrightarrow> (\<forall>kv\<in>set kwargs. shape (snd kv) \<noteq> [])"
  by (simp add: vts_header_def point_data_def snd_then_wr_None fh_write_def snd_field_decls)

lemma vts_ok_iff:
  assumes "shape3 x = (nx, ny, nz)"
  shows "snd (vts f32 x y z kwargs) = None \<longleftrightarrow>
     (\<forall>kv\<in>set kwargs. shape (snd kv) \<noteq> []) \<and>
     snd (vts_points f32 nx ny nz x y z) = None \<and>
     (\<forall>kv\<in>set kwargs. snd (float_block f32 (flatten_F (snd kv))) = None)"
  unfolding vts_def assms prod.case snd_seqs_None
  by (auto simp: vts_header_ok fh_write_def fst_trailer snd_fields_part simp del: length_greater_0_conv)









subsection \<open>The Points block of vts\<close>

lemma take_drop_concat_uniform_off:
  assumes "\<forall>x\<in>set xs. length (g x) = d" and "p < length xs" and "off + n \<le> d"
  shows "take n (drop (d * p + off) (concat (map g xs))) = take n (drop off (g (xs ! p)))"
proof -
  from assms(2) obtain ys where dr: "drop p xs = xs ! p # ys"
    by (metis Cons_nth_drop_Suc)
  have len: "length (g (xs ! p)) = d" using assms(1,2) by simp
  have "drop (d * p + off) (concat (map g xs)) = drop off (drop (d * p) (concat (map g xs)))"
    by (simp add: add.commute)
  also have "\<dots> = drop off (g (xs ! p) @ concat (map g ys))"
    unfolding drop_concat_uniform [OF assms(1)] dr by simp
  also have "\<dots> = drop off (g (xs ! p)) @ concat (map g ys)"
    using assms(3) len by simp
  finally show ?thesis using assms(3) len by simp
qed

lemma snd_seqs_map: "snd (seqs (map f xs)) = None \<longleftrightarrow> (\<forall>x\<in>set xs. snd (f x) = None)"
  by (simp add: snd_seqs_None)

lemma fst_seqs_map:
  "\<forall>x\<in>set xs. snd (f x) = None \<Longrightarrow> fst (seqs (map f xs)) = concat (map (\<lambda>x. fst (f x)) xs)"
  using fst_seqs_ok [of "map f xs"] by (simp add: comp_def)

lemma fst_seqs_map_eq:
  assumes "\<forall>x\<in>set xs. snd (f x) = None \<and> fst (f x) = g x"
  shows "fst (seqs (map f xs)) = concat (map g xs)"
proof -
  have "fst (seqs (map f xs)) = concat (map (\<lambda>x. fst (f x)) xs)"
    using assms by (simp add: fst_seqs_map)
  also have "map (\<lambda>x. fst (f x)) xs = map g xs"
    using assms by simp
  finally show ?thesis .
qed

lemma snd_pack_f_single: "snd (write_pack (pack_f f32 [v])) = None \<longleftrightarrow> f32 v \<noteq> None"
  using pack_f_ok [of f32 "[v]"] by (simp add: snd_write_pack)

lemma snd_write_item_iff:
  "snd (write_item f32 r) = None \<longleftrightarrow> (\<exists>v. r = Inr v \<and> f32 v \<noteq> None)"
  by (cases r) (simp_all add: snd_pack_f_single raise_error_def)

lemma fst_pack_f_single:
  "f32 v \<noteq> None \<Longrightarrow> fst (write_pack (pack_f f32 [v])) = le32 (the (f32 v))"
  using pack_f_bytes [of "[v]" f32] by (simp add: fh_write_def)

lemma index3_Inr:
  "index3 a i j k = Inr v \<longleftrightarrow>
     (case shape3 a of (n, m, l) \<Rightarrow> i < n \<and> j < m \<and> k < l) \<and> v = item3 a i j k"
  by (auto simp: index3_def split: prod.splits)

lemma fst_point_writes:
  assumes "snd (point_writes f32 x y z i j k) = None"
  shows "fst (point_writes f32 x y z i j k) = point_bytes f32 x y z i j k"
proof -
  from assms obtain a b c where
    x: "index3 x i j k = Inr a" "f32 a \<noteq> None" and
    y: "index3 y i j k = Inr b" "f32 b \<noteq> None" and
    z: "index3 z i j k = Inr c" "f32 c \<noteq> None"
    unfolding point_writes_def snd_seqs_None by (auto simp: snd_write_item_iff)
  have "a = item3 x i j k" "b = item3 y i j k" "c = item3 z i j k"
    using x y z by (simp_all add: index3_Inr)
  then show ?thesis
    using x y z unfolding point_writes_def point_bytes_def
    by (simp add: fst_then_wr snd_pack_f_single fst_pack_f_single)
qed

lemma length_point_bytes: "length (point_bytes f32 x y z i j k) = 12"
  by (simp add: point_bytes_def length_le32)

lemma vts_points_alt:
  "vts_points f32 nx ny nz x y z =
     then_wr (write_pack (pack_i (4 * int nx * int ny * int nz * 3)))
       (seqs (map (\<lambda>k. seqs (map (\<lambda>j. seqs (map (\<lambda>i. point_writes f32 x y z i j k) [0..<nx]))
          [0..<ny])) [0..<nz]))"
  by (simp add: vts_points_def)

lemma vts_points_ok:
  assumes "snd (vts_points f32 nx ny nz x y z) = None"
  shows "pack_i (4 * int nx * int ny * int nz * 3) = Inr (le32 (word_of_int (4 * int nx * int ny * int nz * 3)))"
    and "\<forall>k\<in>set [0..<nz]. \<forall>j\<in>set [0..<ny]. \<forall>i\<in>set [0..<nx]. snd (point_writes f32 x y z i j k) = None"
proof -
  from assms have a: "snd (write_pack (pack_i (4 * int nx * int ny * int nz * 3))) = None"
    and b: "snd (seqs (map (\<lambda>k. seqs (map (\<lambda>j. seqs (map (\<lambda>i. point_writes f32 x y z i j k) [0..<nx]))
          [0..<ny])) [0..<nz])) = None"
    unfolding vts_points_alt snd_then_wr_None by simp_all
  from a show "pack_i (4 * int nx * int ny * int nz * 3) = Inr (le32 (word_of_int (4 * int nx * int ny * int nz * 3)))"
    unfolding snd_write_pack by (auto simp: pack_i_def split: if_splits)
  from b show "\<forall>k\<in>set [0..<nz]. \<forall>j\<in>set [0..<ny]. \<forall>i\<in>set [0..<nx]. snd (point_writes f32 x y z i j k) = None"
    unfolding snd_seqs_map .
qed

lemma fst_vts_points:
  assumes "snd (vts_points f32 nx ny nz x y z) = None"
  shows "fst (vts_points f32 nx ny nz x y z) =
           le32 (word_of_int (4 * int nx * int ny * int nz * 3))
           @ concat (map (\<lambda>k. concat (map (\<lambda>j. concat (map (\<lambda>i. point_bytes f32 x y z i j k)
                [0..<nx])) [0..<ny])) [0..<nz])"
proof -
  note ok = vts_points_ok [OF assms]
  have row: "fst (seqs (map (\<lambda>i. point_writes f32 x y z i j k) [0..<nx]))
             = concat (map (\<lambda>i. point_bytes f32 x y z i j k) [0..<nx])"
    if "k \<in> set [0..<nz]" "j \<in> set [0..<ny]" for j k
  proof -
    have "\<forall>i\<in>set [0..<nx]. snd (point_writes f32 x y z i j k) = None"
      using ok(2) that by blast
    then show ?thesis
      by (intro fst_seqs_map_eq) (simp add: fst_point_writes)
  qed
  have plane: "fst (seqs (map (\<lambda>j. seqs (map (\<lambda>i. point_writes f32 x y z i j k) [0..<nx])) [0..<ny]))
             = concat (map (\<lambda>j. concat (map (\<lambda>i. point_bytes f32 x y z i j k) [0..<nx])) [0..<ny])"
    if "k \<in> set [0..<nz]" for k
  proof -
    have "\<forall>j\<in>set [0..<ny]. snd (seqs (map (\<lambda>i. point_writes f32 x y z i j k) [0..<nx])) = None"
      using ok(2) that unfolding snd_seqs_map by blast
    then show ?thesis
      using that by (intro fst_seqs_map_eq) (simp add: row)
  qed
  have "\<forall>k\<in>set [0..<nz]. snd (seqs (map (\<lambda>j. seqs (map (\<lambda>i. point_writes f32 x y z i j k) [0..<nx])) [0..<ny])) = None"
    using ok(2) unfolding snd_seqs_map by blast
  then have all: "fst (seqs (map (\<lambda>k. seqs (map (\<lambda>j. seqs (map (\<lambda>i. point_writes f32 x y z i j k) [0..<nx]))
          [0..<ny])) [0..<nz]))
      = concat (map (\<lambda>k. concat (map (\<lambda>j. concat (map (\<lambda>i. point_bytes f32 x y z i j k)
                [0..<nx])) [0..<ny])) [0..<nz])"
    by (intro fst_seqs_map_eq) (simp add: plane)
  show ?thesis
    unfolding vts_points_alt ok(1) write_pack.simps
    by (simp add: fst_then_wr fh_write_def all)
qed

lemma length_concat_uniform:
  "\<forall>x\<in>set xs. length (g x) = d \<Longrightarrow> length (concat (map g xs)) = d * length xs"
  by (induction xs) auto

lemma point_position:
  assumes "i < nx" "j < ny" "k < nz"
    and len: "\<And>i j k. length (P i j k) = 12"
  shows "take 12 (drop (12 * (i + nx * (j + ny * k)))
           (concat (map (\<lambda>k. concat (map (\<lambda>j. concat (map (\<lambda>i. P i j k) [0..<nx])) [0..<ny])) [0..<nz])))
         = P i j k"
proof -
  let ?row = "\<lambda>k j. concat (map (\<lambda>i. P i j k) [0..<nx])"
  let ?plane = "\<lambda>k. concat (map (\<lambda>j. ?row k j) [0..<ny])"
  have lrow: "length (?row k j) = 12 * nx" for k j
    using length_concat_uniform [of "[0..<nx]" "\<lambda>i. P i j k" 12] len by simp
  have lplane: "length (?plane k) = (12 * nx) * ny" for k
    using length_concat_uniform [of "[0..<ny]" "\<lambda>j. ?row k j" "12 * nx"] lrow by simp
  have b1: "12 * i + 12 \<le> 12 * nx" using assms(1) by simp
  have b2: "(12 * nx) * j + (12 * i) + 12 \<le> (12 * nx) * ny"
  proof -
    have "(12 * nx) * j + 12 * nx \<le> (12 * nx) * ny"
      using assms(2) by (rule mult_succ_le)
    with b1 show ?thesis by linarith
  qed
  have e: "12 * (i + nx * (j + ny * k)) = ((12 * nx) * ny) * k + ((12 * nx) * j + 12 * i)"
    by (simp add: algebra_simps)
  have "take 12 (drop (((12 * nx) * ny) * k + ((12 * nx) * j + 12 * i)) (concat (map ?plane [0..<nz])))
        = take 12 (drop ((12 * nx) * j + 12 * i) (?plane ([0..<nz] ! k)))"
    by (rule take_drop_concat_uniform_off) (use lplane assms(3) b2 in simp_all)
  also have "\<dots> = take 12 (drop ((12 * nx) * j + 12 * i) (concat (map (\<lambda>j. ?row k j) [0..<ny])))"
    using assms(3) by simp
  also have "\<dots> = take 12 (drop (12 * i) (?row k ([0..<ny] ! j)))"
    by (rule take_drop_concat_uniform_off) (use lrow assms(2) b1 in simp_all)
  also have "\<dots> = take 12 (drop (12 * i + 0) (concat (map (\<lambda>i. P i j k) [0..<nx])))"
    using assms(2) by simp
  also have "\<dots> = take 12 (drop 0 (P ([0..<nx] ! i) j k))"
    by (rule take_drop_concat_uniform_off) (use len assms(1) in simp_all)
  also have "\<dots> = P i j k"
    using assms(1) len by simp
  finally show ?thesis unfolding e .
qed

lemma snd_vts_points_iff:
  "snd (vts_points f32 nx ny nz x y z) = None \<longleftrightarrow>
     4 * int nx * int ny * int nz * 3 < 2 ^ 31 \<and>
     (\<forall>k<nz. \<forall>j<ny. \<forall>i<nx. snd (point_writes f32 x y z i j k) = None)"
proof -
  have "(\<exists>bs. pack_i (4 * int nx * int ny * int nz * 3) = Inr bs) \<longleftrightarrow>
        4 * int nx * int ny * int nz * 3 < 2 ^ 31"
  proof -
    have nn: "0 \<le> int nx * (int ny * int nz)" by simp
    show ?thesis by (auto simp: pack_i_def) (use nn in linarith)
  qed
  then show ?thesis
    unfolding vts_points_alt snd_then_wr_None snd_seqs_map snd_write_pack by auto
qed

text \<open>
  C5: in every structured grid file that vts writes, the Points block follows the
  \<open>_\<close> and holds, after its length prefix, the points in the order of the loops: \<open>k\<close>
  outermost, then \<open>j\<close>, then \<open>i\<close> innermost, each point as the three values
  \<open>x[i,j,k]\<close>, \<open>y[i,j,k]\<close>, \<open>z[i,j,k]\<close>. So \<open>i\<close> varies fastest: the point
  \<open>(i, j, k)\<close> is point number \<open>i + nx*(j + ny*k)\<close> of the block.
\<close>

theorem vts_points_order:
  assumes "vts f32 x y z kwargs = (bs, None)" and "shape3 x = (nx, ny, nz)"
    and "i < nx" and "j < ny" and "k < nz"
  shows "(\<exists>rest. bs = fst (vts_header nx ny nz kwargs) @ encode ''_''
                    @ fst (vts_points f32 nx ny nz x y z) @ rest)
       \<and> fst (vts_points f32 nx ny nz x y z) =
           le32 (word_of_int (4 * int nx * int ny * int nz * 3))
           @ concat (map (\<lambda>k. concat (map (\<lambda>j. concat (map (\<lambda>i. point_bytes f32 x y z i j k)
                [0..<nx])) [0..<ny])) [0..<nz])
       \<and> take 12 (drop (4 + 12 * (i + nx * (j + ny * k))) (fst (vts_points f32 nx ny nz x y z)))
           = point_bytes f32 x y z i j k"
proof -
  from assms(1) have ok: "snd (vts f32 x y z kwargs) = None" and bs: "bs = fst (vts f32 x y z kwargs)"
    by simp_all
  have pts: "snd (vts_points f32 nx ny nz x y z) = None"
    using ok by (simp add: vts_ok_iff [OF assms(2)])
  let ?parts = "[vts_header nx ny nz kwargs, fh_write (encode ''_''), vts_points f32 nx ny nz x y z,
           (if length kwargs > 0 then field_blocks f32 kwargs else fh_write []), trailer]"
  have v: "vts f32 x y z kwargs = seqs ?parts"
    by (simp add: vts_def assms(2))
  have "\<forall>w\<in>set ?parts. snd w = None"
    using ok unfolding v snd_seqs_None .
  then have "fst (seqs ?parts) = concat (map fst ?parts)"
    by (rule fst_seqs_ok)
  then have whole: "\<exists>rest. bs = fst (vts_header nx ny nz kwargs) @ encode ''_''
                    @ fst (vts_points f32 nx ny nz x y z) @ rest"
    unfolding bs v by (simp add: fh_write_def)
  note block = fst_vts_points [OF pts]
  have "take 12 (drop (4 + 12 * (i + nx * (j + ny * k))) (fst (vts_points f32 nx ny nz x y z)))
        = take 12 (drop (12 * (i + nx * (j + ny * k)))
            (concat (map (\<lambda>k. concat (map (\<lambda>j. concat (map (\<lambda>i. point_bytes f32 x y z i j k)
                [0..<nx])) [0..<ny])) [0..<nz])))"
    unfolding block by (simp add: length_le32)
  also have "\<dots> = point_bytes f32 x y z i j k"
    by (rule point_position [OF assms(3-5)]) (rule length_point_bytes)
  finally show ?thesis using whole block by simp
qed

theorem vts_points_order_witness:
  "snd (vts Some example_grid example_grid example_grid []) = None
   \<and> take 12 (drop (4 + 12 * 1) (fst (vts_points Some 2 2 2 example_grid example_grid example_grid)))
       = le32 1 @ le32 1 @ le32 1
   \<and> take 12 (drop (4 + 12 * 2) (fst (vts_points Some 2 2 2 example_grid example_grid example_grid)))
       = le32 10 @ le32 10 @ le32 10
   \<and> take 12 (drop (4 + 12 * 4) (fst (vts_points Some 2 2 2 example_grid example_grid example_grid)))
       = le32 100 @ le32 100 @ le32 100"
proof -
  have s: "shape3 example_grid = (2, 2, 2)" by (simp add: example_grid_def)
  have "snd (vts_points Some 2 2 2 example_grid example_grid example_grid) = None"
    by (simp add: snd_vts_points_iff point_writes_def snd_then_wr_None snd_pack_f_single
        index3_def example_grid_def)
  then have ok: "snd (vts Some example_grid example_grid example_grid []) = None"
    by (simp add: vts_ok_iff [OF s])
  then have run: "vts Some example_grid example_grid example_grid []
      = (fst (vts Some example_grid example_grid example_grid []), None)"
    by (metis prod.collapse)
  have p: "point_bytes Some example_grid example_grid example_grid i j k
      = le32 (word_of_nat (100 * k + 10 * j + i)) @ le32 (word_of_nat (100 * k + 10 * j + i))
        @ le32 (word_of_nat (100 * k + 10 * j + i))" for i j k
    by (simp add: point_bytes_def example_grid_def)
  from vts_points_order [OF run s, of 1 0 0, THEN conjunct2, THEN conjunct2]
    vts_points_order [OF run s, of 0 1 0, THEN conjunct2, THEN conjunct2]
    vts_points_order [OF run s, of 0 0 1, THEN conjunct2, THEN conjunct2] ok
  show ?thesis by (simp add: p)
qed

subsection \<open>Sums of 64-bit integers that do not wrap around\<close>

lemma pack_i_Inr_iff: "(\<exists>bs. pack_i v = Inr bs) \<longleftrightarrow> in_int32 v"
  by (auto simp: pack_i_def in_int32_def)

lemma pack_i_in_int32: "in_int32 v \<Longrightarrow> pack_i v = Inr (le32 (word_of_int v))"
  by (simp add: pack_i_def in_int32_def)

lemma snd_write_pack_i: "snd (write_pack (pack_i v)) = None \<longleftrightarrow> in_int32 v"
  by (simp add: snd_write_pack pack_i_Inr_iff)

lemma fst_write_pack_i: "in_int32 v \<Longrightarrow> fst (write_pack (pack_i v)) = le32 (word_of_int v)"
  by (simp add: pack_i_in_int32 fh_write_def)

lemma sint_add_no_wrap:
  fixes a b :: "64 word"
  assumes "in_int32 (sint a)" and "in_int32 (sint (a + b))"
  shows "sint (a + b) = sint a + sint b"
proof -
  let ?S = "sint a + sint b"
  have eq: "sint (a + b) = signed_take_bit 63 ?S"
    by (simp add: sint_word_add)
  have b: "- (2 ^ 63) \<le> sint b" "sint b < 2 ^ 63"
    using sint_ge [of b] sint_lt [of b] by simp_all
  have a: "- (2 ^ 31) \<le> sint a" "sint a < 2 ^ 31"
    using assms(1) by (simp_all add: in_int32_def)
  have r: "- (2 ^ 31) \<le> signed_take_bit 63 ?S" "signed_take_bit 63 ?S < 2 ^ 31"
    using assms(2) unfolding eq by (simp_all add: in_int32_def)
  have "\<not> 2 ^ 63 \<le> ?S"
  proof
    assume "2 ^ 63 \<le> ?S"
    then have "signed_take_bit 63 ?S \<le> ?S - 2 ^ Suc 63"
      by (rule signed_take_bit_int_less_eq)
    with a b r show False by simp
  qed
  moreover have "\<not> ?S < - (2 ^ 63)"
  proof
    assume "?S < - (2 ^ 63)"
    then have "?S + 2 ^ Suc 63 \<le> signed_take_bit 63 ?S"
      by (rule signed_take_bit_int_greater_eq)
    with a b r show False by simp
  qed
  ultimately have "signed_take_bit 63 ?S = ?S"
    by (intro signed_take_bit_int_eq_self) simp_all
  then show ?thesis by (simp add: eq)
qed

lemma upt_Suc_shift: "[0..<Suc m] = 0 # map Suc [0..<m]"
  by (simp add: upt_conv_Cons map_Suc_upt del: upt_Suc)

lemma length_cumsum_from: "length (cumsum_from acc ws) = length ws"
  by (induction ws arbitrary: acc) auto

lemma cumsum_from_exact:
  assumes "in_int32 (sint acc)" and "\<forall>c\<in>set (cumsum_from acc ws). in_int32 (sint c)"
  shows "map sint (cumsum_from acc ws) =
           map (\<lambda>i. sint acc + sum_list (take (Suc i) (map sint ws))) [0..<length ws]"
  using assms
proof (induction ws arbitrary: acc)
  case Nil
  show ?case by simp
next
  case (Cons w ws)
  have in': "in_int32 (sint (acc + w))" using Cons.prems(2) by simp
  have s: "sint (acc + w) = sint acc + sint w"
    using Cons.prems(1) in' by (rule sint_add_no_wrap)
  have IH: "map sint (cumsum_from (acc + w) ws) =
           map (\<lambda>i. sint (acc + w) + sum_list (take (Suc i) (map sint ws))) [0..<length ws]"
    using in' Cons.prems(2) by (intro Cons.IH) simp_all
  show ?case
    unfolding length_Cons upt_Suc_shift
    by (simp add: IH s comp_def add.assoc del: upt_Suc)
qed

lemma np_cumsum_exact:
  assumes "\<forall>c\<in>set (np_cumsum ws). in_int32 (sint c)"
  shows "map sint (np_cumsum ws) = prefix_sums (map sint ws)"
  using cumsum_from_exact [of 0 ws] assms
  by (simp add: np_cumsum_def prefix_sums_def in_int32_def)

lemma sorted_prefix_sums:
  assumes "\<forall>s\<in>set xs. 0 < s"
  shows "sorted_wrt (<) (prefix_sums xs)"
proof -
  have step: "sum_list (take (Suc i) xs) < sum_list (take (Suc j) xs)" if "i < j" "j < length xs" for i j
  proof -
    have "take (Suc j) xs = take (Suc i) xs @ take (j - i) (drop (Suc i) xs)"
      using that by (metis Suc_diff_Suc Suc_leI add_Suc_right le_add_diff_inverse take_add)
    moreover have "0 < sum_list (take (j - i) (drop (Suc i) xs))"
    proof -
      have ne: "take (j - i) (drop (Suc i) xs) \<noteq> []" using that by simp
      have pos: "\<forall>s\<in>set (take (j - i) (drop (Suc i) xs)). 0 < s"
        using assms by (meson in_set_dropD in_set_takeD)
      show ?thesis using ne pos
      proof (induction "take (j - i) (drop (Suc i) xs)")
        case Nil then show ?case by simp
      next
        case (Cons a as)
        then show ?case
          by (metis add_pos_nonneg list.set_intros(1) list.set_intros(2) order_less_imp_le sum_list.Cons sum_list_nonneg)
      qed
    qed
    ultimately show ?thesis by simp
  qed
  show ?thesis
    unfolding prefix_sums_def sorted_wrt_map
    by (rule sorted_wrt_mono_rel [of _ "(<)"]) (use step in auto)
qed

subsection \<open>The parts of an unstructured grid file\<close>

lemma snd_vtu_header_start: "snd (vtu_header_start nPoints nCells) = None"
  by (simp add: vtu_header_start_def snd_then_wr_None fh_write_def)

lemma vtu_ok:
  assumes "snd (vtu f32 xyz cells cellTypes kwargs) = None"
  obtains col0 where "column0 cells = Inr col0"
    and "vtu f32 xyz cells cellTypes kwargs =
           then_wr (vtu_header_start (fst (shape2 xyz)) (fst (shape2 cells)))
             (seqs (vtu_parts f32 xyz cells cellTypes col0 kwargs))"
    and "\<forall>w\<in>set (vtu_parts f32 xyz cells cellTypes col0 kwargs). snd w = None"
proof (cases "column0 cells")
  case (Inl e)
  with assms show ?thesis
    by (simp add: vtu_def Let_def snd_then_wr_None raise_error_def)
next
  case (Inr col0)
  have v: "vtu f32 xyz cells cellTypes kwargs =
           then_wr (vtu_header_start (fst (shape2 xyz)) (fst (shape2 cells)))
             (seqs (vtu_parts f32 xyz cells cellTypes col0 kwargs))"
    by (simp add: vtu_def Let_def Inr vtu_parts_def)
  have "snd (seqs (vtu_parts f32 xyz cells cellTypes col0 kwargs)) = None"
    using assms unfolding v snd_then_wr_None by simp
  then have "\<forall>w\<in>set (vtu_parts f32 xyz cells cellTypes col0 kwargs). snd w = None"
    unfolding snd_seqs_None .
  with Inr v show ?thesis by (rule that)
qed

lemma column0_eq:
  "column0 cells = Inr col0 \<Longrightarrow> col0 = map (\<lambda>i. item2 cells i 0) [0..<fst (shape2 cells)]"
  by (cases "shape2 cells") (auto simp: column0_def split: if_splits)

lemma vtu_offsets_ok:
  assumes "snd (vtu_offsets n col0) = None" and "length col0 = n"
  shows "in_int32 (4 * int n)" and "\<forall>c\<in>set (np_cumsum col0). in_int32 (sint c)"
proof -
  from assms(1) have a: "in_int32 (4 * int n)"
    and b: "\<forall>i\<in>set [0..<n]. in_int32 (sint (np_cumsum col0 ! i))"
    unfolding vtu_offsets_def snd_then_wr_None Let_def snd_seqs_map snd_write_pack_i by simp_all
  show "in_int32 (4 * int n)" by (rule a)
  have len: "length (np_cumsum col0) = n"
    using assms(2) by (simp add: np_cumsum_def length_cumsum_from)
  show "\<forall>c\<in>set (np_cumsum col0). in_int32 (sint c)"
    using b len by (auto simp: in_set_conv_nth)
qed

lemma fst_vtu_offsets:
  assumes "snd (vtu_offsets n col0) = None" and "length col0 = n"
  shows "fst (vtu_offsets n col0) =
           le32 (word_of_int (4 * int n))
           @ concat (map (\<lambda>v. le32 (word_of_int v)) (prefix_sums (map sint col0)))"
proof -
  note ok = vtu_offsets_ok [OF assms]
  have len: "length (np_cumsum col0) = n"
    using assms(2) by (simp add: np_cumsum_def length_cumsum_from)
  have "fst (seqs (map (\<lambda>i. write_pack (pack_i (sint (np_cumsum col0 ! i)))) [0..<n]))
        = concat (map (\<lambda>i. le32 (word_of_int (sint (np_cumsum col0 ! i)))) [0..<n])"
    by (rule fst_seqs_map_eq) (use ok(2) len in \<open>simp add: snd_write_pack_i fst_write_pack_i\<close>)
  also have "map (\<lambda>i. le32 (word_of_int (sint (np_cumsum col0 ! i)))) [0..<n]
        = map (\<lambda>v. le32 (word_of_int v)) (map sint (np_cumsum col0))"
    using len by (simp add: list_eq_iff_nth_eq)
  also have "map sint (np_cumsum col0) = prefix_sums (map sint col0)"
    by (rule np_cumsum_exact [OF ok(2)])
  finally show ?thesis
    unfolding vtu_offsets_def Let_def
    by (simp add: fst_then_wr snd_write_pack_i fst_write_pack_i ok(1))
qed

text \<open>
  C4: in every unstructured grid file that vtu writes for cells of vertex counts
  \<open>s_0, ..., s_(n-1)\<close>, all greater than zero, the offsets block holds, after its
  length prefix \<open>4*n\<close>, the inclusive prefix sums \<open>s_0 + ... + s_i\<close> as 32-bit
  integers, and they are strictly increasing. The file is the first lines of the header
  followed by the parts of \<open>vtu_parts\<close>, of which the offsets block is the fifth. The
  witness is the cells of sizes 8, 8 and 6: offsets 8, 16 and 22.
\<close>

theorem vtu_offsets_are_prefix_sums:
  assumes "vtu f32 xyz cells cellTypes kwargs = (bs, None)"
    and "\<forall>s\<in>set (cell_sizes cells). 0 < s"
  shows "\<exists>col0. column0 cells = Inr col0
       \<and> fst (vtu_offsets (fst (shape2 cells)) col0) =
           le32 (word_of_int (4 * int (fst (shape2 cells))))
           @ concat (map (\<lambda>v. le32 (word_of_int v)) (prefix_sums (cell_sizes cells)))
       \<and> bs = fst (vtu_header_start (fst (shape2 xyz)) (fst (shape2 cells)))
             @ concat (map fst (vtu_parts f32 xyz cells cellTypes col0 kwargs))
       \<and> sorted_wrt (<) (prefix_sums (cell_sizes cells))
       \<and> (\<forall>v\<in>set (prefix_sums (cell_sizes cells)). in_int32 v)"
proof -
  from assms(1) have ok: "snd (vtu f32 xyz cells cellTypes kwargs) = None"
    and bs: "bs = fst (vtu f32 xyz cells cellTypes kwargs)" by simp_all
  from ok obtain col0 where c: "column0 cells = Inr col0"
    and v: "vtu f32 xyz cells cellTypes kwargs =
           then_wr (vtu_header_start (fst (shape2 xyz)) (fst (shape2 cells)))
             (seqs (vtu_parts f32 xyz cells cellTypes col0 kwargs))"
    and parts: "\<forall>w\<in>set (vtu_parts f32 xyz cells cellTypes col0 kwargs). snd w = None"
    by (rule vtu_ok)
  have col: "col0 = map (\<lambda>i. item2 cells i 0) [0..<fst (shape2 cells)]"
    using c by (rule column0_eq)
  then have len: "length col0 = fst (shape2 cells)" by simp
  have sz: "map sint col0 = cell_sizes cells"
    by (simp add: col cell_sizes_def)
  have o: "snd (vtu_offsets (fst (shape2 cells)) col0) = None"
    using parts by (simp add: vtu_parts_def)
  have block: "fst (vtu_offsets (fst (shape2 cells)) col0) =
           le32 (word_of_int (4 * int (fst (shape2 cells))))
           @ concat (map (\<lambda>v. le32 (word_of_int v)) (prefix_sums (cell_sizes cells)))"
    using fst_vtu_offsets [OF o len] by (simp only: sz)
  have whole: "bs = fst (vtu_header_start (fst (shape2 xyz)) (fst (shape2 cells)))
             @ concat (map fst (vtu_parts f32 xyz cells cellTypes col0 kwargs))"
    unfolding bs v using fst_seqs_ok [OF parts]
    by (simp add: fst_then_wr snd_vtu_header_start)
  have rng: "\<forall>v\<in>set (prefix_sums (cell_sizes cells)). in_int32 v"
  proof -
    have "map sint (np_cumsum col0) = prefix_sums (cell_sizes cells)"
      using np_cumsum_exact [OF vtu_offsets_ok(2) [OF o len]] by (simp only: sz)
    then have "set (prefix_sums (cell_sizes cells)) = sint ` set (np_cumsum col0)"
      by (metis list.set_map)
    then show ?thesis using vtu_offsets_ok(2) [OF o len] by auto
  qed
  from c block whole sorted_prefix_sums [OF assms(2)] rng show ?thesis by blast
qed

lemma vtu_ok_iff:
  "snd (vtu f32 xyz cells cellTypes kwargs) = None \<longleftrightarrow>
     (\<exists>col0. column0 cells = Inr col0 \<and>
        (\<forall>w\<in>set (vtu_parts f32 xyz cells cellTypes col0 kwargs). snd w = None))"
proof (cases "column0 cells")
  case (Inl e)
  then show ?thesis
    by (simp add: vtu_def Let_def snd_then_wr_None raise_error_def)
next
  case (Inr col0)
  then show ?thesis
    by (simp add: vtu_def Let_def snd_then_wr_None snd_vtu_header_start vtu_parts_def
        del: length_greater_0_conv)
qed

lemma snd_vtu_header_rest:
  "snd (vtu_header_rest nPoints nCells col0 kwargs) = None \<longleftrightarrow>
     (\<forall>kv\<in>set kwargs. shape (snd kv) \<noteq> [])"
  by (simp add: vtu_header_rest_def Let_def point_data_def snd_then_wr_None fh_write_def
      snd_field_decls)

lemma three_upt: "[0..<3] = [0, 1, 2]"
  by (simp add: upt_rec)

lemma cell_sizes_example: "cell_sizes example_cells = [8, 8, 6]"
  by (simp add: cell_sizes_def example_cells_def three_upt)

lemma column0_example: "column0 example_cells = Inr [8, 8, 6]"
  by (simp add: column0_def example_cells_def three_upt)

lemma vtu_example_ok: "snd (vtu Some example_xyz example_cells [12, 12, 13] []) = None"
proof -
  have h: "snd (vtu_header_rest 12 3 [8, 8, 6] ([] :: (string \<times> 32 word ndarray) list)) = None"
    by (simp add: snd_vtu_header_rest)
  have p: "snd (vtu_points Some example_xyz) = None"
    by (simp add: vtu_points_def example_xyz_def snd_then_wr_None snd_write_pack_i in_int32_def
        snd_seqs_map snd_write_pack pack_f_ok pack_i_Inr_iff)
  have c: "snd (vtu_connectivity example_cells [8, 8, 6]) = None"
    by (simp add: vtu_connectivity_def cell_writes_def snd_then_wr_None snd_write_pack_i
        in_int32_def np_sum_def snd_seqs_map index2_def example_cells_def three_upt)
  have o: "snd (vtu_offsets 3 [8, 8, 6]) = None"
    by (simp add: vtu_offsets_def snd_then_wr_None snd_write_pack_i in_int32_def
        snd_seqs_map np_cumsum_def three_upt)
  have t: "snd (vtu_types 3 [12, 12, 13]) = None"
    by (simp add: vtu_types_def snd_then_wr_None snd_write_pack_i in_int32_def
        snd_seqs_map three_upt)
  have s: "fst (shape2 example_xyz) = 12" "fst (shape2 example_cells) = 3"
    by (simp_all add: example_xyz_def example_cells_def)
  show ?thesis
    unfolding vtu_ok_iff column0_example
    by (simp add: vtu_parts_def s h p c o t fst_trailer fh_write_def)
qed

theorem vtu_offsets_are_prefix_sums_witness:
  "snd (vtu Some example_xyz example_cells [12, 12, 13] []) = None
   \<and> cell_sizes example_cells = [8, 8, 6]
   \<and> prefix_sums (cell_sizes example_cells) = [8, 16, 22]
   \<and> fst (vtu_offsets 3 [8, 8, 6]) = le32 12 @ le32 8 @ le32 16 @ le32 22"
proof -
  have run: "vtu Some example_xyz example_cells [12, 12, 13] []
      = (fst (vtu Some example_xyz example_cells [12, 12, 13] []), None)"
    using vtu_example_ok by (metis prod.collapse)
  have pos: "\<forall>s\<in>set (cell_sizes example_cells). 0 < s"
    by (simp add: cell_sizes_example)
  have ps: "prefix_sums [8, 8, 6] = [8, 16, 22]"
    by (simp add: prefix_sums_def three_upt)
  have s: "fst (shape2 example_cells) = 3"
    by (simp add: example_cells_def)
  from vtu_offsets_are_prefix_sums [OF run pos]
  obtain col0 where "column0 example_cells = Inr col0"
    and "fst (vtu_offsets (fst (shape2 example_cells)) col0) =
           le32 (word_of_int (4 * int (fst (shape2 example_cells))))
           @ concat (map (\<lambda>v. le32 (word_of_int v)) (prefix_sums (cell_sizes example_cells)))"
    by blast
  then have "fst (vtu_offsets 3 [8, 8, 6]) = le32 (word_of_int (4 * int 3))
           @ concat (map (\<lambda>v. le32 (word_of_int v)) (prefix_sums [8, 8, 6]))"
    by (simp add: column0_example cell_sizes_example s)
  then show ?thesis
    using vtu_example_ok by (simp add: cell_sizes_example ps)
qed

subsection \<open>The connectivity block\<close>

lemma sint_sum_list_no_wrap:
  fixes ws :: "64 word list"
  assumes "\<forall>w\<in>set ws. 0 \<le> sint w \<and> sint w \<le> B" and "0 \<le> B" and "B * int (length ws) < 2 ^ 63"
  shows "sint (sum_list ws) = sum_list (map sint ws) \<and> 0 \<le> sum_list (map sint ws)
         \<and> sum_list (map sint ws) \<le> B * int (length ws)"
  using assms
proof (induction ws)
  case Nil
  then show ?case by simp
next
  case (Cons w ws)
  have le: "B * int (length ws) \<le> B * int (length (w # ws))"
    using Cons.prems(2) by (simp add: mult_left_mono)
  have IH: "sint (sum_list ws) = sum_list (map sint ws) \<and> 0 \<le> sum_list (map sint ws)
         \<and> sum_list (map sint ws) \<le> B * int (length ws)"
    using Cons.prems le by (intro Cons.IH) auto
  have w: "0 \<le> sint w" "sint w \<le> B" using Cons.prems(1) by simp_all
  have up: "sint w + sum_list (map sint ws) \<le> B * int (length (w # ws))"
    using w IH by (simp add: algebra_simps)
  have e: "sint (sum_list ws) = sum_list (map sint ws)" using IH by simp
  have "sint (w + sum_list ws) = signed_take_bit 63 (sint w + sum_list (map sint ws))"
    by (simp add: sint_word_add e)
  also have "\<dots> = sint w + sum_list (map sint ws)"
  proof (rule signed_take_bit_int_eq_self)
    show "- (2 ^ 63) \<le> sint w + sum_list (map sint ws)" using w IH by simp
    show "sint w + sum_list (map sint ws) < 2 ^ 63" using up Cons.prems(3) by simp
  qed
  finally show ?case using w IH up by simp
qed

lemma sint_times_4_no_wrap:
  fixes s :: "64 word"
  assumes "0 \<le> sint s" and "sint s < 2 ^ 61"
  shows "sint (4 * s) = 4 * sint s"
proof -
  have "sint (4 * s) = signed_take_bit 63 (sint (4 :: 64 word) * sint s)"
    by (simp add: sint_word_mult)
  also have "sint (4 :: 64 word) = 4" by simp
  also have "signed_take_bit 63 (4 * sint s) = 4 * sint s"
    using assms by (intro signed_take_bit_int_eq_self) simp_all
  finally show ?thesis .
qed

lemma index2_Inr:
  "index2 a i j = Inr v \<longleftrightarrow> (i < fst (shape2 a) \<and> j < snd (shape2 a)) \<and> v = item2 a i j"
  by (cases "shape2 a") (auto simp: index2_def)

lemma vtu_connectivity_alt:
  "vtu_connectivity cells col0 =
     then_wr (write_pack (pack_i (sint (4 * np_sum col0))))
       (seqs (map (cell_writes cells) [0..<fst (shape2 cells)]))"
  by (simp add: vtu_connectivity_def)

lemma cell_writes_ok:
  assumes "snd (cell_writes cells i) = None" and "i < fst (shape2 cells)" and "0 < snd (shape2 cells)"
  shows "\<forall>j<nat (sint (item2 cells i 0)). j + 1 < snd (shape2 cells) \<and> in_int32 (sint (item2 cells i (j + 1)))"
    and "fst (cell_writes cells i) =
           concat (map (\<lambda>j. le32 (word_of_int (sint (item2 cells i (j + 1)))))
                       [0..<nat (sint (item2 cells i 0))])"
proof -
  have c: "index2 cells i 0 = Inr (item2 cells i 0)"
    using assms(2,3) by (simp add: index2_Inr)
  let ?w = "\<lambda>j. (case index2 cells i (j + 1) of
                            Inl e \<Rightarrow> raise_error e
                          | Inr v \<Rightarrow> write_pack (pack_i (sint v)))"
  have cw: "cell_writes cells i = seqs (map ?w [0..<nat (sint (item2 cells i 0))])"
    by (simp add: cell_writes_def c)
  have each: "\<forall>j\<in>set [0..<nat (sint (item2 cells i 0))]. snd (?w j) = None"
    using assms(1) unfolding cw snd_seqs_map .
  have one: "j + 1 < snd (shape2 cells) \<and> in_int32 (sint (item2 cells i (j + 1)))
             \<and> fst (?w j) = le32 (word_of_int (sint (item2 cells i (j + 1))))"
    if "j < nat (sint (item2 cells i 0))" for j
  proof -
    have ej: "snd (?w j) = None" using each that by simp
    show ?thesis
    proof (cases "index2 cells i (j + 1)")
      case (Inl e)
      with ej show ?thesis by (simp add: raise_error_def)
    next
      case (Inr v)
      then have v: "v = item2 cells i (j + 1)" and r: "j + 1 < snd (shape2 cells)"
        by (simp_all add: index2_Inr)
      from ej Inr have "in_int32 (sint v)"
        by (simp add: snd_write_pack_i)
      then show ?thesis using v r Inr by (simp add: fst_write_pack_i)
    qed
  qed
  show "\<forall>j<nat (sint (item2 cells i 0)). j + 1 < snd (shape2 cells) \<and> in_int32 (sint (item2 cells i (j + 1)))"
    using one by blast
  show "fst (cell_writes cells i) =
           concat (map (\<lambda>j. le32 (word_of_int (sint (item2 cells i (j + 1)))))
                       [0..<nat (sint (item2 cells i 0))])"
    unfolding cw by (rule fst_seqs_map_eq) (use each one in simp)
qed

lemma map_shift_upt: "map (\<lambda>j. f (j + 1)) [0..<c] = map f [1..<Suc c]"
proof -
  have "map f [1..<Suc c] = map f (map Suc [0..<c])"
    by (simp only: map_Suc_upt One_nat_def)
  then show ?thesis by (simp add: comp_def)
qed

lemma length_cells_bytes:
  assumes "\<forall>s\<in>set cs. 0 \<le> s"
  shows "int (length (concat (map (\<lambda>i. concat (map (\<lambda>j. le32 (g i j)) [1..<Suc (nat (cs ! i))]))
                                  [0..<length cs])))
         = 4 * sum_list cs"
proof -
  have inner: "length (concat (map (\<lambda>j. le32 (g i j)) [1..<Suc (nat c)])) = 4 * nat c" for i c
    using length_concat_le32 [of "g i" "[1..<Suc (nat c)]"] by (simp del: upt_Suc)
  have "length (concat (map (\<lambda>i. concat (map (\<lambda>j. le32 (g i j)) [1..<Suc (nat (cs ! i))]))
                                  [0..<length cs]))
        = sum_list (map (\<lambda>i. 4 * nat (cs ! i)) [0..<length cs])"
  proof -
    have gen: "length (concat (map F xs)) = sum_list (map (\<lambda>i. length (F i)) xs)"
      for F :: "nat \<Rightarrow> byte list" and xs
      by (simp add: length_concat comp_def)
    have "length (concat (map (\<lambda>i. concat (map (\<lambda>j. le32 (g i j)) [1..<Suc (nat (cs ! i))]))
                                  [0..<length cs]))
        = sum_list (map (\<lambda>i. length (concat (map (\<lambda>j. le32 (g i j)) [1..<Suc (nat (cs ! i))])))
                        [0..<length cs])"
      by (rule gen)
    then show ?thesis
      by (simp only: inner)
  qed
  also have "map (\<lambda>i. 4 * nat (cs ! i)) [0..<length cs] = map (\<lambda>c. 4 * nat c) (map ((!) cs) [0..<length cs])"
    by simp
  also have "\<dots> = map (\<lambda>c. 4 * nat c) cs"
    by (simp only: map_nth)
  finally have "length (concat (map (\<lambda>i. concat (map (\<lambda>j. le32 (g i j)) [1..<Suc (nat (cs ! i))]))
                                  [0..<length cs]))
        = sum_list (map (\<lambda>c. 4 * nat c) cs)" .
  moreover have "int (sum_list (map (\<lambda>c. 4 * nat c) cs)) = 4 * sum_list cs"
    using assms by (induction cs) auto
  ultimately show ?thesis by simp
qed

text \<open>
  C9: in every unstructured grid file that vtu writes for a \<open>cells\<close> array of \<open>n\<close>
  rows and \<open>m\<close> columns whose column 0 holds the vertex counts (none negative), the
  connectivity block holds, for each cell \<open>i\<close> in order, exactly the entries
  \<open>cells[i,1]\<close> to \<open>cells[i,cells[i,0]]\<close> as 32-bit integers, neither the count
  nor the padding after it, and its length prefix is 4 times the sum of the counts;
  the block is 4 bytes longer than that, as line 184 counts it for the next offset.
  The array has fewer than \<open>2^61\<close> entries, as any array of 8-byte integers in a
  64-bit address space has: the int64 sum of the counts cannot wrap around then.
\<close>

theorem vtu_connectivity_block:
  assumes "vtu f32 xyz cells cellTypes kwargs = (bs, None)"
    and "shape2 cells = (n, m)" and "n * m < 2 ^ 61"
    and "\<forall>s\<in>set (cell_sizes cells). 0 \<le> s"
  shows "\<exists>col0. column0 cells = Inr col0
       \<and> fst (vtu_connectivity cells col0) =
           le32 (word_of_int (4 * sum_list (cell_sizes cells)))
           @ concat (map (\<lambda>i. concat (map (\<lambda>j. le32 (word_of_int (sint (item2 cells i j))))
                                           [1..<Suc (nat (cell_sizes cells ! i))]))
                         [0..<n])
       \<and> bs = fst (vtu_header_start (fst (shape2 xyz)) n)
             @ concat (map fst (vtu_parts f32 xyz cells cellTypes col0 kwargs))
       \<and> (\<forall>i<n. nat (cell_sizes cells ! i) < m)
       \<and> in_int32 (4 * sum_list (cell_sizes cells))
       \<and> (\<forall>i<n. \<forall>j\<in>set [1..<Suc (nat (cell_sizes cells ! i))]. in_int32 (sint (item2 cells i j)))
       \<and> int (length (fst (vtu_connectivity cells col0))) = 4 + 4 * sum_list (cell_sizes cells)"
proof -
  from assms(1) have ok: "snd (vtu f32 xyz cells cellTypes kwargs) = None"
    and bs: "bs = fst (vtu f32 xyz cells cellTypes kwargs)" by simp_all
  from ok obtain col0 where c: "column0 cells = Inr col0"
    and v: "vtu f32 xyz cells cellTypes kwargs =
           then_wr (vtu_header_start (fst (shape2 xyz)) (fst (shape2 cells)))
             (seqs (vtu_parts f32 xyz cells cellTypes col0 kwargs))"
    and parts: "\<forall>w\<in>set (vtu_parts f32 xyz cells cellTypes col0 kwargs). snd w = None"
    by (rule vtu_ok)
  have n: "fst (shape2 cells) = n" and m: "snd (shape2 cells) = m" using assms(2) by simp_all
  have m0: "0 < m" using c assms(2) by (auto simp: column0_def split: if_splits)
  have col: "col0 = map (\<lambda>i. item2 cells i 0) [0..<n]"
    using column0_eq [OF c] n by simp
  have sz: "map sint col0 = cell_sizes cells"
    by (simp add: col cell_sizes_def n)
  have szi: "cell_sizes cells ! i = sint (item2 cells i 0)" if "i < n" for i
    using that by (simp add: cell_sizes_def n)
  have conn: "snd (vtu_connectivity cells col0) = None"
    using parts by (simp add: vtu_parts_def)
  then have pre: "in_int32 (sint (4 * np_sum col0))"
    and cw: "\<forall>i\<in>set [0..<n]. snd (cell_writes cells i) = None"
    unfolding vtu_connectivity_alt snd_then_wr_None snd_seqs_map snd_write_pack_i n by simp_all
  have cwi: "snd (cell_writes cells i) = None" if "i < n" for i
    using cw that by simp
  have rows: "\<forall>j<nat (sint (item2 cells i 0)). j + 1 < m \<and> in_int32 (sint (item2 cells i (j + 1)))"
    if "i < n" for i
    using cell_writes_ok(1) [of cells i] cwi [OF that] that m0 n m by simp
  have bytes: "fst (cell_writes cells i) =
           concat (map (\<lambda>j. le32 (word_of_int (sint (item2 cells i j))))
                       [1..<Suc (nat (cell_sizes cells ! i))])"
    if "i < n" for i
  proof -
    have "fst (cell_writes cells i) =
           concat (map (\<lambda>j. le32 (word_of_int (sint (item2 cells i (j + 1)))))
                       [0..<nat (sint (item2 cells i 0))])"
      using cell_writes_ok(2) [of cells i] cwi [OF that] that m0 n m by simp
    also have "map (\<lambda>j. le32 (word_of_int (sint (item2 cells i (j + 1)))))
                       [0..<nat (sint (item2 cells i 0))]
        = map (\<lambda>j. le32 (word_of_int (sint (item2 cells i j)))) [1..<Suc (nat (sint (item2 cells i 0)))]"
      by (rule map_shift_upt)
    finally show ?thesis by (simp only: szi [OF that])
  qed
  have small: "nat (cell_sizes cells ! i) < m" if "i < n" for i
  proof (cases "nat (sint (item2 cells i 0))")
    case 0
    then show ?thesis using m0 that by (simp add: szi)
  next
    case (Suc k)
    then have "k + 1 < m" using rows [OF that] by simp
    then show ?thesis using Suc that by (simp add: szi)
  qed
  have bound: "\<forall>w\<in>set col0. 0 \<le> sint w \<and> sint w \<le> int m"
  proof
    fix w assume "w \<in> set col0"
    then obtain i where i: "i < n" and w: "w = item2 cells i 0"
      by (auto simp: col)
    have "sint w \<in> set (cell_sizes cells)"
      using i w by (auto simp: cell_sizes_def n)
    then have "0 \<le> sint w" using assms(4) by blast
    moreover have "nat (sint w) < m" using small [OF i] i w by (simp add: szi)
    ultimately show "0 \<le> sint w \<and> sint w \<le> int m" by simp
  qed
  have lim: "int m * int (length col0) < 2 ^ 61"
  proof -
    have "int (n * m) < int (2 ^ 61)" using assms(3) by (simp only: of_nat_less_iff)
    then show ?thesis by (simp add: col mult.commute)
  qed
  have sum: "sint (np_sum col0) = sum_list (cell_sizes cells) \<and> 0 \<le> sum_list (cell_sizes cells)
         \<and> sum_list (cell_sizes cells) \<le> int m * int (length col0)"
    unfolding np_sum_def sz [symmetric]
    by (rule sint_sum_list_no_wrap [OF bound]) (use lim in simp_all)
  have four: "sint (4 * np_sum col0) = 4 * sum_list (cell_sizes cells)"
    using sint_times_4_no_wrap [of "np_sum col0"] sum lim by simp
  have block: "fst (vtu_connectivity cells col0) =
           le32 (word_of_int (4 * sum_list (cell_sizes cells)))
           @ concat (map (\<lambda>i. concat (map (\<lambda>j. le32 (word_of_int (sint (item2 cells i j))))
                                           [1..<Suc (nat (cell_sizes cells ! i))]))
                         [0..<n])"
  proof -
    have "fst (seqs (map (cell_writes cells) [0..<n]))
        = concat (map (\<lambda>i. concat (map (\<lambda>j. le32 (word_of_int (sint (item2 cells i j))))
                                           [1..<Suc (nat (cell_sizes cells ! i))])) [0..<n])"
      by (rule fst_seqs_map_eq) (use cwi bytes in simp)
    then show ?thesis
      unfolding vtu_connectivity_alt n using pre
      by (simp add: fst_then_wr snd_write_pack_i fst_write_pack_i four)
  qed
  have whole: "bs = fst (vtu_header_start (fst (shape2 xyz)) n)
             @ concat (map fst (vtu_parts f32 xyz cells cellTypes col0 kwargs))"
    unfolding bs v using fst_seqs_ok [OF parts]
    by (simp add: fst_then_wr snd_vtu_header_start n)
  have ents: "\<forall>i<n. \<forall>j\<in>set [1..<Suc (nat (cell_sizes cells ! i))]. in_int32 (sint (item2 cells i j))"
  proof (intro allI impI ballI)
    fix i j assume i: "i < n" and j: "j \<in> set [1..<Suc (nat (cell_sizes cells ! i))]"
    then have "j - 1 < nat (sint (item2 cells i 0))" "j = (j - 1) + 1"
      by (auto simp: szi)
    then show "in_int32 (sint (item2 cells i j))"
      using rows [OF i] by metis
  qed
  have pre': "in_int32 (4 * sum_list (cell_sizes cells))"
    using pre by (simp only: four)
  have len: "int (length (fst (vtu_connectivity cells col0))) = 4 + 4 * sum_list (cell_sizes cells)"
  proof -
    have l: "length (cell_sizes cells) = n" by (simp add: cell_sizes_def n)
    have "int (length (concat (map (\<lambda>i. concat (map (\<lambda>j. le32 (word_of_int (sint (item2 cells i j))))
                                           [1..<Suc (nat (cell_sizes cells ! i))]))
                         [0..<n]))) = 4 * sum_list (cell_sizes cells)"
      using length_cells_bytes [OF assms(4), of "\<lambda>i j. word_of_int (sint (item2 cells i j))"]
      by (simp only: l)
    then show ?thesis
      unfolding block by (simp add: length_le32)
  qed
  from c block whole small pre' ents len show ?thesis by blast
qed

theorem vtu_connectivity_block_witness:
  "snd (vtu Some example_xyz example_cells [12, 12, 13] []) = None
   \<and> fst (vtu_connectivity example_cells [8, 8, 6]) =
       le32 88 @ concat (replicate 22 (le32 7))"
proof -
  have run: "vtu Some example_xyz example_cells [12, 12, 13] []
      = (fst (vtu Some example_xyz example_cells [12, 12, 13] []), None)"
    using vtu_example_ok by (metis prod.collapse)
  have s: "shape2 example_cells = (3, 9)"
    by (simp add: example_cells_def)
  have nn: "\<forall>s\<in>set (cell_sizes example_cells). 0 \<le> s"
    by (simp add: cell_sizes_example)
  have e: "item2 example_cells i j = 7" if "j \<in> set [1..<Suc c]" for i j c
    using that by (auto simp: example_cells_def)
  from vtu_connectivity_block [OF run s _ nn]
  obtain col0 where "column0 example_cells = Inr col0"
    and "fst (vtu_connectivity example_cells col0) =
           le32 (word_of_int (4 * sum_list (cell_sizes example_cells)))
           @ concat (map (\<lambda>i. concat (map (\<lambda>j. le32 (word_of_int (sint (item2 example_cells i j))))
                                           [1..<Suc (nat (cell_sizes example_cells ! i))]))
                         [0..<3])"
    by auto
  then have "fst (vtu_connectivity example_cells [8, 8, 6]) =
           le32 (word_of_int (4 * sum_list (cell_sizes example_cells)))
           @ concat (map (\<lambda>i. concat (map (\<lambda>j. le32 (word_of_int (sint (item2 example_cells i j))))
                                           [1..<Suc (nat (cell_sizes example_cells ! i))]))
                         [0..<3])"
    by (simp add: column0_example)
  also have "\<dots> = le32 88 @ concat (replicate 22 (le32 7))"
  proof -
    have row: "concat (map (\<lambda>j. le32 (word_of_int (sint (item2 example_cells i j)))) [1..<Suc c])
               = concat (replicate c (le32 7))" for i c
    proof -
      have "map (\<lambda>j. le32 (word_of_int (sint (item2 example_cells i j)))) [1..<Suc c]
            = map (\<lambda>j. le32 7) [1..<Suc c]"
        by (rule map_cong) (simp_all add: e)
      then show ?thesis by (simp add: map_replicate_const)
    qed
    have r: "replicate 22 x = replicate 8 x @ replicate 8 x @ replicate 6 x" for x :: "byte list"
      by (simp add: replicate_add [symmetric])
    show ?thesis
      by (simp only: row) (simp add: cell_sizes_example three_upt r)
  qed
  finally show ?thesis using vtu_example_ok by simp
qed

end
